theory Spec2Isabelle
  imports Main "HOL-Library.AList" "HOL-Library.Sublist"
begin

section \<open>The live-connection coordinator of a remote thread\<close>

text \<open>
  A shallow embedding of the hook \<^verbatim>\<open>useRemoteThreadLiveConnection\<close>: its pure helpers
  (\<^verbatim>\<open>keyForThread\<close>, \<^verbatim>\<open>splitKey\<close>, \<^verbatim>\<open>isThreadActivityMethod\<close>, \<^verbatim>\<open>extractThreadId\<close>), the
  mutable cells it keeps in refs, and its callbacks as functions from state to state.

  Strings are \<^typ>\<open>string\<close>, lists of 8-bit characters: a JavaScript string whose code
  units are all below 256. The white space that \<^verbatim>\<open>trim\<close> strips is, in that range, the
  code units 9 to 13, 32 and 160.
\<close>

subsection \<open>Subscription keys\<close>

definition keyForThread :: "string \<Rightarrow> string \<Rightarrow> string" where
  "keyForThread workspaceId threadId = workspaceId @ '':'' @ threadId"

text \<open>\<^verbatim>\<open>String.prototype.indexOf\<close> for a one-character pattern: the first position, or -1.\<close>

fun indexOf :: "string \<Rightarrow> char \<Rightarrow> int" where
  "indexOf [] c = - 1"
| "indexOf (x # xs) c =
     (if x = c then 0
      else (let r = indexOf xs c in if r < 0 then - 1 else r + 1))"

record parsed_key =
  workspaceId :: string
  threadId :: string

definition splitKey :: "string \<Rightarrow> parsed_key option" where
  "splitKey key =
     (let separator = indexOf key CHR '':'' in
      if separator \<le> 0 \<or> separator \<ge> int (length key) - 1 then None
      else Some \<lparr> workspaceId = take (nat separator) key,
                  threadId = drop (nat (separator + 1)) key \<rparr>)"

subsection \<open>Event payloads and thread-id extraction\<close>

text \<open>
  A payload value. Numbers, booleans and arrays have no property \<^verbatim>\<open>threadId\<close> or
  \<^verbatim>\<open>thread_id\<close> and matter here only through the text \<^verbatim>\<open>String()\<close> gives for them, so
  \<open>JOther\<close> carries that text. An object is its list of properties.
\<close>

datatype jsval =
    JUndefined
  | JNull
  | JStr string
  | JOther string
  | JObj "(string \<times> jsval) list"

definition getProp :: "(string \<times> jsval) list \<Rightarrow> string \<Rightarrow> jsval" where
  "getProp props name = (case map_of props name of None \<Rightarrow> JUndefined | Some v \<Rightarrow> v)"

text \<open>Reading a property of a value that is neither null nor undefined.\<close>

fun property :: "jsval \<Rightarrow> string \<Rightarrow> jsval" where
  "property (JObj props) name = getProp props name"
| "property v name = JUndefined"

text \<open>The operator \<^verbatim>\<open>??\<close>.\<close>

fun nullish :: "jsval \<Rightarrow> bool" where
  "nullish JUndefined = True"
| "nullish JNull = True"
| "nullish v = False"

definition coalesce :: "jsval \<Rightarrow> jsval \<Rightarrow> jsval" where
  "coalesce a b = (if nullish a then b else a)"

fun js_String :: "jsval \<Rightarrow> string" where
  "js_String JUndefined = ''undefined''"
| "js_String JNull = ''null''"
| "js_String (JStr s) = s"
| "js_String (JOther s) = s"
| "js_String (JObj props) = ''[object Object]''"

definition js_space :: "char \<Rightarrow> bool" where
  "js_space c = (let n = (of_char c :: nat) in (9 \<le> n \<and> n \<le> 13) \<or> n = 32 \<or> n = 160)"

definition trim :: "string \<Rightarrow> string" where
  "trim s = rev (dropWhile js_space (rev (dropWhile js_space s)))"

definition isThreadActivityMethod :: "string \<Rightarrow> bool" where
  "isThreadActivityMethod method =
     (prefix ''item/'' method \<or> prefix ''turn/'' method \<or> method = ''error''
      \<or> method = ''thread/tokenUsage/updated'')"

definition extractThreadId :: "string \<Rightarrow> (string \<times> jsval) list \<Rightarrow> string option" where
  "extractThreadId method params =
     (let direct = trim (js_String (coalesce (coalesce (getProp params ''threadId'')
                      (getProp params ''thread_id'')) (JStr '''')));
          fromDirect = (if length direct > 0 then Some direct else None)
      in if method = ''turn/started'' \<or> method = ''turn/completed'' \<or> method = ''error''
         then (let turn = coalesce (getProp params ''turn'') (JObj []);
                   fromTurn = trim (js_String (coalesce (coalesce (property turn ''threadId'')
                                (property turn ''thread_id'')) (JStr '''')))
               in if fromTurn \<noteq> [] then Some fromTurn else fromDirect)
         else fromDirect)"

subsection \<open>Connection state\<close>

datatype RemoteThreadConnectionState = Live | Polling | Disconnected

text \<open>Of \<^verbatim>\<open>WorkspaceInfo\<close> the hook reads the members \<^verbatim>\<open>id\<close> and \<^verbatim>\<open>connected\<close> only.\<close>

record WorkspaceInfo =
  ws_id :: string
  connected :: bool

text \<open>\<^verbatim>\<open>workspace?.connected\<close> as a condition: false for a missing workspace.\<close>

definition isConnected :: "WorkspaceInfo option \<Rightarrow> bool" where
  "isConnected w = (case w of None \<Rightarrow> False | Some i \<Rightarrow> connected i)"

text \<open>The initialiser passed to \<^verbatim>\<open>useState\<close>.\<close>

definition initialConnectionState :: "string \<Rightarrow> WorkspaceInfo option \<Rightarrow> RemoteThreadConnectionState" where
  "initialConnectionState backendMode activeWorkspace =
     (if backendMode \<noteq> ''remote''
      then (if isConnected activeWorkspace then Live else Disconnected)
      else if \<not> isConnected activeWorkspace then Disconnected
      else Polling)"

subsection \<open>The coordinator's state\<close>

text \<open>
  What the callbacks read from their surroundings: \<^verbatim>\<open>Date.now()\<close> in milliseconds since
  the epoch, \<^verbatim>\<open>isDocumentVisible()\<close> and \<^verbatim>\<open>isWindowFocused()\<close>.
\<close>

record env =
  now :: nat
  visible :: bool
  focused :: bool

text \<open>The calls to the collaborators.\<close>

datatype call =
    ThreadLiveSubscribe string string
  | ThreadLiveUnsubscribe string string
  | RefreshThread string string
  | ReconnectWorkspace WorkspaceInfo

text \<open>
  Where the body of a reconnect attempt (the inner \<^verbatim>\<open>async\<close> function of
  \<^verbatim>\<open>reconnectLive\<close>) is suspended: at one of its five \<^verbatim>\<open>await\<close>s, or returned.
\<close>

datatype await_point =
    AtReconnectWorkspace
  | AtRefreshThread
  | AtUnsubscribeBeforeReattach
  | AtSubscribe
  | AtUnsubscribeStale
  | Returned bool

text \<open>
  An attempt: the variables its closure holds, where it stands, and whether the callback
  registered with \<^verbatim>\<open>reconnectPromise.finally\<close> has still to run. Its promise is identified
  with its position in the list of attempts; the promise is resolved, with \<open>b\<close>, when the
  attempt stands at \<open>Returned b\<close>.
\<close>

record attempt =
  targetKey :: string
  at_workspaceId :: string
  at_threadId :: string
  runResume :: "bool option"
  at_sequence :: nat
  point :: await_point
  finallyPending :: bool

record in_flight =
  key :: string
  sequence :: nat
  promise :: nat

text \<open>
  What a \<^verbatim>\<open>return\<close> statement of \<^verbatim>\<open>reconnectLive\<close> returns: the value \<^verbatim>\<open>false\<close>, or the
  promise of an attempt.
\<close>

datatype returned = ReturnFalse | ReturnPromise nat

text \<open>
  The props of the last render (the refs \<^verbatim>\<open>backendModeRef\<close>, \<^verbatim>\<open>activeWorkspaceRef\<close>,
  \<^verbatim>\<open>activeThreadIdRef\<close>, \<^verbatim>\<open>reconnectWorkspaceRef\<close> hold the same values once the first
  effect has run), the other refs, the attempts started so far, and the calls made so far,
  each with the attempt that made it (\<open>None\<close> for a call made by a handler), and the
  promises that the calls of \<^verbatim>\<open>reconnectLive\<close> have given their callers, in the order of
  the calls, each with the value it was resolved with. A caller's promise is identified
  with its position in that list; it is another object than the promise of an attempt.
  Of the optional prop \<^verbatim>\<open>reconnectWorkspace\<close> only its presence is kept. The sequence number and the
  expiry times are natural numbers: the counter would have to pass \<open>2\<^sup>5\<^sup>3\<close> for the
  arithmetic of JavaScript to differ.
\<close>

record coordinator =
  backendMode :: string
  activeWorkspace :: "WorkspaceInfo option"
  activeThreadId :: "string option"
  reconnectWorkspace :: bool
  connectionState :: RemoteThreadConnectionState
  activeSubscriptionKey :: "string option"
  desiredSubscriptionKey :: "string option"
  ignoreDetachedEventsUntil :: "(string \<times> nat) list"
  inFlightReconnect :: "in_flight option"
  reconnectSequence :: nat
  attempts :: "attempt list"
  calls :: "(nat option \<times> call) list"
  callerPromises :: "returned list"

definition SELF_DETACH_IGNORE_WINDOW_MS :: nat where
  "SELF_DETACH_IGNORE_WINDOW_MS = 10000"

definition initial :: "string \<Rightarrow> WorkspaceInfo option \<Rightarrow> string option \<Rightarrow> bool \<Rightarrow> coordinator" where
  "initial mode ws thread rw =
     \<lparr> backendMode = mode, activeWorkspace = ws, activeThreadId = thread,
       reconnectWorkspace = rw,
       connectionState = initialConnectionState mode ws,
       activeSubscriptionKey = None, desiredSubscriptionKey = None,
       ignoreDetachedEventsUntil = [], inFlightReconnect = None,
       reconnectSequence = 0, attempts = [], calls = [], callerPromises = [] \<rparr>"

definition setState :: "RemoteThreadConnectionState \<Rightarrow> coordinator \<Rightarrow> coordinator" where
  "setState next s = (if connectionState s = next then s else s\<lparr>connectionState := next\<rparr>)"

definition issue :: "nat option \<Rightarrow> call \<Rightarrow> coordinator \<Rightarrow> coordinator" where
  "issue who c s = s\<lparr>calls := calls s @ [(who, c)]\<rparr>"

text \<open>
  \<^verbatim>\<open>unsubscribeByKey\<close> makes its call, if it makes one, before it first suspends; what
  follows its \<^verbatim>\<open>await\<close> only swallows a rejection.
\<close>

definition unsubscribeByKey :: "string \<Rightarrow> coordinator \<Rightarrow> coordinator" where
  "unsubscribeByKey k s =
     (case splitKey k of
        None \<Rightarrow> s
      | Some parsed \<Rightarrow> issue None (ThreadLiveUnsubscribe (workspaceId parsed) (threadId parsed)) s)"

definition reconcileDisconnectedState :: "coordinator \<Rightarrow> coordinator" where
  "reconcileDisconnectedState s =
     (if backendMode s \<noteq> ''remote''
      then setState (if isConnected (activeWorkspace s) then Live else Disconnected) s
      else if \<not> isConnected (activeWorkspace s) then setState Disconnected s
      else setState Polling s)"

subsection \<open>The body of a reconnect attempt\<close>

text \<open>
  One function for each stretch of the body between two suspensions. Each takes the
  attempt's promise \<open>p\<close> and its closure \<open>a\<close>, and gives the state it leaves and the point
  where the body stops next.
\<close>

definition catchBlock :: "attempt \<Rightarrow> coordinator \<Rightarrow> coordinator \<times> await_point" where
  "catchBlock a s =
     (if at_sequence a = reconnectSequence s then (reconcileDisconnectedState s, Returned False)
      else (s, Returned False))"

definition callSubscribe :: "nat \<Rightarrow> attempt \<Rightarrow> coordinator \<Rightarrow> coordinator \<times> await_point" where
  "callSubscribe p a s =
     (issue (Some p) (ThreadLiveSubscribe (at_workspaceId a) (at_threadId a)) s, AtSubscribe)"

definition afterSubscribe :: "nat \<Rightarrow> attempt \<Rightarrow> coordinator \<Rightarrow> coordinator \<times> await_point" where
  "afterSubscribe p a s =
     (if at_sequence a \<noteq> reconnectSequence s
      then (if desiredSubscriptionKey s \<noteq> Some (targetKey a)
            then (issue (Some p) (ThreadLiveUnsubscribe (at_workspaceId a) (at_threadId a)) s,
                  AtUnsubscribeStale)
            else (s, Returned False))
      else (setState Polling (s\<lparr>activeSubscriptionKey := Some (targetKey a)\<rparr>), Returned True))"

definition afterUnsubscribeBeforeReattach ::
    "nat \<Rightarrow> attempt \<Rightarrow> coordinator \<Rightarrow> coordinator \<times> await_point" where
  "afterUnsubscribeBeforeReattach p a s = callSubscribe p a (s\<lparr>activeSubscriptionKey := None\<rparr>)"

definition afterRefreshThread ::
    "nat \<Rightarrow> attempt \<Rightarrow> env \<Rightarrow> coordinator \<Rightarrow> coordinator \<times> await_point" where
  "afterRefreshThread p a e s =
     (if at_sequence a \<noteq> reconnectSequence s then (s, Returned False)
      else if activeSubscriptionKey s = Some (targetKey a)
      then (issue (Some p) (ThreadLiveUnsubscribe (at_workspaceId a) (at_threadId a))
              (s\<lparr>ignoreDetachedEventsUntil :=
                   AList.update (targetKey a) (now e + SELF_DETACH_IGNORE_WINDOW_MS)
                     (ignoreDetachedEventsUntil s)\<rparr>),
            AtUnsubscribeBeforeReattach)
      else callSubscribe p a s)"

definition afterReconnectWorkspace ::
    "nat \<Rightarrow> attempt \<Rightarrow> env \<Rightarrow> coordinator \<Rightarrow> coordinator \<times> await_point" where
  "afterReconnectWorkspace p a e s =
     (if at_sequence a \<noteq> reconnectSequence s then (s, Returned False)
      else if runResume a \<noteq> Some False
      then (issue (Some p) (RefreshThread (at_workspaceId a) (at_threadId a)) s, AtRefreshThread)
      else afterRefreshThread p a e s)"

text \<open>From the first line of the body to its first suspension.\<close>

definition startAttempt ::
    "nat \<Rightarrow> string \<Rightarrow> string \<Rightarrow> bool option \<Rightarrow> env \<Rightarrow> coordinator \<Rightarrow> coordinator \<times> attempt" where
  "startAttempt p wid tid opts e s =
     (let a = \<lparr> targetKey = keyForThread wid tid, at_workspaceId = wid, at_threadId = tid,
                runResume = opts, at_sequence = reconnectSequence s + 1,
                point = AtReconnectWorkspace, finallyPending = True \<rparr>;
          s1 = s\<lparr>reconnectSequence := reconnectSequence s + 1\<rparr>;
          s2 = setState (if isConnected (activeWorkspace s1) then Polling else Disconnected) s1;
          s3 = s2\<lparr>desiredSubscriptionKey := Some (keyForThread wid tid)\<rparr>;
          (s4, pt) =
            (case activeWorkspace s3 of
               None \<Rightarrow> afterReconnectWorkspace p a e s3
             | Some workspaceEntry \<Rightarrow>
                 if \<not> connected workspaceEntry \<and> reconnectWorkspace s3
                    \<and> ws_id workspaceEntry = wid
                 then (issue (Some p) (ReconnectWorkspace workspaceEntry) s3, AtReconnectWorkspace)
                 else afterReconnectWorkspace p a e s3)
      in (s4, a\<lparr>point := pt\<rparr>))"

text \<open>
  The awaited call of a suspended attempt settles. A rejection of an unsubscribe is
  swallowed by its own \<^verbatim>\<open>.catch\<close>; any other rejection goes to the \<^verbatim>\<open>catch\<close> block. A
  collaborator that throws before returning a promise reaches the same \<^verbatim>\<open>catch\<close> block,
  and is the run in which the rejection is delivered at once.
\<close>

datatype outcome = Fulfilled | Rejected

definition resume ::
    "nat \<Rightarrow> attempt \<Rightarrow> outcome \<Rightarrow> env \<Rightarrow> coordinator \<Rightarrow> coordinator \<times> await_point" where
  "resume p a out e s =
     (case point a of
        AtReconnectWorkspace \<Rightarrow>
          (case out of Fulfilled \<Rightarrow> afterReconnectWorkspace p a e s | Rejected \<Rightarrow> catchBlock a s)
      | AtRefreshThread \<Rightarrow>
          (case out of Fulfilled \<Rightarrow> afterRefreshThread p a e s | Rejected \<Rightarrow> catchBlock a s)
      | AtUnsubscribeBeforeReattach \<Rightarrow> afterUnsubscribeBeforeReattach p a s
      | AtSubscribe \<Rightarrow>
          (case out of Fulfilled \<Rightarrow> afterSubscribe p a s | Rejected \<Rightarrow> catchBlock a s)
      | AtUnsubscribeStale \<Rightarrow> (s, Returned False)
      | Returned b \<Rightarrow> (s, Returned b))"

definition pending :: "coordinator \<Rightarrow> nat \<Rightarrow> bool" where
  "pending s p =
     (p < length (attempts s) \<and>
      (case point (attempts s ! p) of Returned b \<Rightarrow> False | _ \<Rightarrow> True))"

definition settle :: "nat \<Rightarrow> outcome \<Rightarrow> env \<Rightarrow> coordinator \<Rightarrow> coordinator" where
  "settle p out e s =
     (if pending s p
      then (let a = attempts s ! p; (s', pt) = resume p a out e s
            in s'\<lparr>attempts := (attempts s')[p := a\<lparr>point := pt\<rparr>]\<rparr>)
      else s)"

text \<open>The callback given to \<^verbatim>\<open>reconnectPromise.finally\<close>, run once after the promise is resolved.\<close>

definition runFinally :: "nat \<Rightarrow> coordinator \<Rightarrow> coordinator" where
  "runFinally p s =
     (if p < length (attempts s) \<and> \<not> pending s p \<and> finallyPending (attempts s ! p)
      then (let s1 = (case inFlightReconnect s of
                        None \<Rightarrow> s
                      | Some f \<Rightarrow> if promise f = p then s\<lparr>inFlightReconnect := None\<rparr> else s)
            in s1\<lparr>attempts := (attempts s1)[p := (attempts s1 ! p)\<lparr>finallyPending := False\<rparr>]\<rparr>)
      else s)"

subsection \<open>\<^verbatim>\<open>reconnectLive\<close>\<close>

text \<open>
  \<^verbatim>\<open>reconnectLive\<close> is an \<^verbatim>\<open>async\<close> function: every call makes a promise of its own and
  hands it to its caller, and a \<^verbatim>\<open>return\<close> statement of the body resolves that promise
  with the value returned: with \<^verbatim>\<open>false\<close>, or with the promise of an attempt, which it
  follows from then on. \<open>asyncReturn\<close> adds the caller's promise to \<open>callerPromises\<close>,
  as the value it is resolved with, and gives that value as the second component of the
  result. The promise the caller holds is the position of the new entry, so that no two
  calls hand out the same promise.
\<close>

definition asyncReturn :: "returned \<Rightarrow> coordinator \<Rightarrow> coordinator \<times> returned" where
  "asyncReturn r s = (s\<lparr>callerPromises := callerPromises s @ [r]\<rparr>, r)"

text \<open>
  The value a caller's promise is fulfilled with, once it is: \<^verbatim>\<open>false\<close> if it was resolved
  with \<^verbatim>\<open>false\<close>, and the result of the attempt whose promise it was resolved with once
  that attempt has returned.
\<close>

definition callerResult :: "coordinator \<Rightarrow> nat \<Rightarrow> bool option" where
  "callerResult s c =
     (if c < length (callerPromises s)
      then (case callerPromises s ! c of
              ReturnFalse \<Rightarrow> Some False
            | ReturnPromise p \<Rightarrow>
                if p < length (attempts s)
                then (case point (attempts s ! p) of Returned b \<Rightarrow> Some b | _ \<Rightarrow> None)
                else None)
      else None)"

definition reconnectLive ::
    "string \<Rightarrow> string \<Rightarrow> bool option \<Rightarrow> env \<Rightarrow> coordinator \<Rightarrow> coordinator \<times> returned" where
  "reconnectLive wid tid opts e s =
     (if backendMode s \<noteq> ''remote'' \<or> wid = [] \<or> tid = [] \<or> activeWorkspace s = None
      then asyncReturn ReturnFalse (reconcileDisconnectedState s)
      else
        (let s1 = s\<lparr>desiredSubscriptionKey := Some (keyForThread wid tid)\<rparr>;
             coalesced =
               (case inFlightReconnect s1 of
                  None \<Rightarrow> None
                | Some f \<Rightarrow> if key f = keyForThread wid tid \<and> sequence f = reconnectSequence s1
                            then Some (promise f) else None)
         in case coalesced of
              Some q \<Rightarrow> asyncReturn (ReturnPromise q) s1
            | None \<Rightarrow>
                (let s2 = (case inFlightReconnect s1 of
                             None \<Rightarrow> s1
                           | Some f \<Rightarrow> if key f = keyForThread wid tid
                                       then s1\<lparr>inFlightReconnect := None\<rparr> else s1);
                     p = length (attempts s2);
                     (s3, a) = startAttempt p wid tid opts e s2
                 in asyncReturn (ReturnPromise p)
                      (s3\<lparr>inFlightReconnect :=
                            Some \<lparr> key = keyForThread wid tid,
                                   sequence = reconnectSequence s3, promise = p \<rparr>,
                          attempts := attempts s3 @ [a]\<rparr>))))"

subsection \<open>The selection effect, the event listener, focus and blur\<close>

text \<open>A string or null used as a condition.\<close>

definition truthy :: "string option \<Rightarrow> bool" where
  "truthy x = (case x of None \<Rightarrow> False | Some v \<Rightarrow> v \<noteq> [])"

text \<open>
  The effect that depends on the selection. It reads the props, which are the fields of
  the state.
\<close>

definition selectionEffect :: "env \<Rightarrow> coordinator \<Rightarrow> coordinator" where
  "selectionEffect e s =
     (let nextKey =
            (case (activeWorkspace s, activeThreadId s) of
               (Some ws, Some thread) \<Rightarrow>
                 if backendMode s = ''remote'' \<and> ws_id ws \<noteq> [] \<and> thread \<noteq> []
                 then Some (keyForThread (ws_id ws) thread) else None
             | _ \<Rightarrow> None);
          s1 = s\<lparr>desiredSubscriptionKey := nextKey\<rparr>;
          previousKey = activeSubscriptionKey s1;
          s2 = (if truthy previousKey \<and> previousKey \<noteq> nextKey
                then (case previousKey of
                        None \<Rightarrow> s1
                      | Some pk \<Rightarrow> unsubscribeByKey pk (s1\<lparr>activeSubscriptionKey := None\<rparr>))
                else s1)
      in case nextKey of
           None \<Rightarrow> reconcileDisconnectedState s2
         | Some nk \<Rightarrow>
             if \<not> visible e then reconcileDisconnectedState s2
             else (case splitKey nk of
                     None \<Rightarrow> reconcileDisconnectedState s2
                   | Some parsed \<Rightarrow>
                       if activeSubscriptionKey s2 = Some nk
                          \<and> connectionState s2 \<noteq> Disconnected
                          \<and> isConnected (activeWorkspace s2)
                       then s2
                       else fst (reconnectLive (workspaceId parsed) (threadId parsed)
                                   (Some True) e s2)))"

text \<open>
  An event of the application server, as the listener sees it: its \<^verbatim>\<open>workspace_id\<close>, and
  what \<^verbatim>\<open>getAppServerRawMethod\<close> and \<^verbatim>\<open>getAppServerParams\<close> (two helpers of another
  module) return for it.
\<close>

record app_event =
  workspace_id :: string
  rawMethod :: "string option"
  params_of :: "(string \<times> jsval) list"

definition onDetached :: "string \<Rightarrow> string \<Rightarrow> env \<Rightarrow> coordinator \<Rightarrow> coordinator" where
  "onDetached wid sel e s =
     (let threadKey = keyForThread wid sel;
          ignoreDetachedUntil =
            (case map_of (ignoreDetachedEventsUntil s) threadKey of None \<Rightarrow> 0 | Some u \<Rightarrow> u)
      in if ignoreDetachedUntil > 0 \<and> ignoreDetachedUntil \<ge> now e
         then s\<lparr>ignoreDetachedEventsUntil := AList.delete threadKey (ignoreDetachedEventsUntil s)\<rparr>
         else
           (let s1 = (if ignoreDetachedUntil > 0
                      then s\<lparr>ignoreDetachedEventsUntil :=
                               AList.delete threadKey (ignoreDetachedEventsUntil s)\<rparr>
                      else s);
                s2 = reconcileDisconnectedState (s1\<lparr>activeSubscriptionKey := None\<rparr>)
            in if visible e \<and> focused e
               then fst (reconnectLive wid sel (Some True) e s2)
               else s2))"

definition onAppServerEvent :: "app_event \<Rightarrow> env \<Rightarrow> coordinator \<Rightarrow> coordinator" where
  "onAppServerEvent ev e s =
     (case rawMethod ev of
        None \<Rightarrow> s
      | Some method \<Rightarrow>
          if method = [] then s
          else
            (case (activeWorkspace s, activeThreadId s) of
               (Some ws, Some sel) \<Rightarrow>
                 if ws_id ws = [] \<or> sel = [] then s
                 else if workspace_id ev \<noteq> ws_id ws then s
                 else if method = ''codex/connected'' \<and> visible e
                 then fst (reconnectLive (ws_id ws) sel (Some False) e s)
                 else if method = ''thread/live_attached''
                 then (if extractThreadId method (params_of ev) = Some sel
                       then setState Polling
                              (s\<lparr>activeSubscriptionKey := Some (keyForThread (ws_id ws) sel)\<rparr>)
                       else s)
                 else if method = ''thread/live_detached''
                 then (if extractThreadId method (params_of ev) = Some sel
                       then onDetached (ws_id ws) sel e s
                       else s)
                 else if method = ''thread/live_heartbeat''
                 then (if extractThreadId method (params_of ev) = Some sel
                       then setState Live s else s)
                 else if \<not> isThreadActivityMethod method then s
                 else if extractThreadId method (params_of ev) \<noteq> Some sel then s
                 else setState Live s
             | _ \<Rightarrow> s))"

definition reconnectActiveThread :: "env \<Rightarrow> coordinator \<Rightarrow> coordinator" where
  "reconnectActiveThread e s =
     (case (activeWorkspace s, activeThreadId s) of
        (Some ws, Some thread) \<Rightarrow>
          if ws_id ws = [] \<or> thread = [] then s
          else fst (reconnectLive (ws_id ws) thread (Some True) e s)
      | _ \<Rightarrow> s)"

definition handleFocus :: "env \<Rightarrow> coordinator \<Rightarrow> coordinator" where
  "handleFocus e s = (if \<not> visible e then s else reconnectActiveThread e s)"

definition handleBlur :: "coordinator \<Rightarrow> coordinator" where
  "handleBlur s =
     (let s1 = s\<lparr>reconnectSequence := reconnectSequence s + 1\<rparr>;
          s2 = s1\<lparr>desiredSubscriptionKey := None\<rparr>;
          currentKey = activeSubscriptionKey s2
      in case currentKey of
           None \<Rightarrow> s2
         | Some k \<Rightarrow>
             if k = [] then s2
             else reconcileDisconnectedState
                    (unsubscribeByKey k (s2\<lparr>activeSubscriptionKey := None\<rparr>)))"

definition handleVisibilityChange :: "env \<Rightarrow> coordinator \<Rightarrow> coordinator" where
  "handleVisibilityChange e s = (if visible e then reconnectActiveThread e s else handleBlur s)"

text \<open>The cleanup of the last effect, at unmount.\<close>

definition cleanup :: "coordinator \<Rightarrow> coordinator" where
  "cleanup s =
     (let s1 = s\<lparr>desiredSubscriptionKey := None, ignoreDetachedEventsUntil := []\<rparr>
      in case activeSubscriptionKey s1 of
           None \<Rightarrow> s1
         | Some k \<Rightarrow>
             if k = [] then s1
             else unsubscribeByKey k (s1\<lparr>activeSubscriptionKey := None\<rparr>))"

text \<open>
  A render with new props: the refs take the new values, and the selection effect runs
  again when one of its dependencies (thread id, workspace id, the workspace's
  \<^verbatim>\<open>connected\<close> flag, backend mode) has changed.
\<close>

definition render ::
    "string \<Rightarrow> WorkspaceInfo option \<Rightarrow> string option \<Rightarrow> bool \<Rightarrow> env \<Rightarrow> coordinator \<Rightarrow> coordinator" where
  "render mode ws thread rw e s =
     (let s1 = s\<lparr>backendMode := mode, activeWorkspace := ws, activeThreadId := thread,
                 reconnectWorkspace := rw\<rparr>
      in if activeThreadId s = thread \<and> isConnected (activeWorkspace s) = isConnected ws
            \<and> map_option ws_id (activeWorkspace s) = map_option ws_id ws
            \<and> backendMode s = mode
         then s1 else selectionEffect e s1)"

definition mount :: "string \<Rightarrow> WorkspaceInfo option \<Rightarrow> string option \<Rightarrow> bool \<Rightarrow> env \<Rightarrow> coordinator" where
  "mount mode ws thread rw e = selectionEffect e (initial mode ws thread rw)"

subsection \<open>Runs\<close>

text \<open>
  Everything that can happen to a mounted coordinator, one job of the event loop at a
  time: a caller invokes \<^verbatim>\<open>reconnectLive\<close>, the awaited call of an attempt settles, a
  \<^verbatim>\<open>finally\<close> callback runs, an event of the application server arrives, the window gains
  or loses focus, the document's visibility changes, the component renders again, or it
  unmounts. Each comes with what the surroundings answer at that moment.
\<close>

datatype input =
    Call string string "bool option"
  | Settle nat outcome
  | Finally nat
  | AppServerEvent app_event
  | WindowFocus
  | WindowBlur
  | VisibilityChange
  | Render string "WorkspaceInfo option" "string option" bool
  | Unmount

fun step :: "env \<times> input \<Rightarrow> coordinator \<Rightarrow> coordinator" where
  "step (e, Call wid tid opts) s = fst (reconnectLive wid tid opts e s)"
| "step (e, Settle p out) s = settle p out e s"
| "step (e, Finally p) s = runFinally p s"
| "step (e, AppServerEvent ev) s = onAppServerEvent ev e s"
| "step (e, WindowFocus) s = handleFocus e s"
| "step (e, WindowBlur) s = handleBlur s"
| "step (e, VisibilityChange) s = handleVisibilityChange e s"
| "step (e, Render mode ws thread rw) s = render mode ws thread rw e s"
| "step (e, Unmount) s = cleanup s"

fun run :: "(env \<times> input) list \<Rightarrow> coordinator \<Rightarrow> coordinator" where
  "run [] s = s"
| "run (i # is) s = run is (step i s)"

subsection \<open>Thread-id extraction, as the specification words it\<close>

text \<open>
  The id an object carries: its \<^verbatim>\<open>threadId\<close>, or else its \<^verbatim>\<open>thread_id\<close>, trimmed; none
  when it is missing or blank after trimming.
\<close>

definition claimedId :: "jsval \<Rightarrow> string option" where
  "claimedId obj =
     (let v = coalesce (property obj ''threadId'') (property obj ''thread_id'')
      in if nullish v \<or> trim (js_String v) = [] then None else Some (trim (js_String v)))"

text \<open>
  For the three turn-scoped methods the id nested in \<^verbatim>\<open>params.turn\<close>, falling back to the
  top-level one; for every other method the top-level one.
\<close>

definition extractThreadId_claimed :: "string \<Rightarrow> (string \<times> jsval) list \<Rightarrow> string option" where
  "extractThreadId_claimed method params =
     (if method = ''turn/started'' \<or> method = ''turn/completed'' \<or> method = ''error''
      then (case claimedId (getProp params ''turn'') of
              Some i \<Rightarrow> Some i
            | None \<Rightarrow> claimedId (JObj params))
      else claimedId (JObj params))"

subsection \<open>What holds in every state\<close>

text \<open>The calls an attempt has made so far, in order.\<close>

definition callsOf :: "nat \<Rightarrow> coordinator \<Rightarrow> call list" where
  "callsOf p s = map snd (filter (\<lambda>x. fst x = Some p) (calls s))"

fun isSubscribe :: "call \<Rightarrow> bool" where
  "isSubscribe (ThreadLiveSubscribe w t) = True"
| "isSubscribe c = False"

fun isRefresh :: "call \<Rightarrow> bool" where
  "isRefresh (RefreshThread w t) = True"
| "isRefresh c = False"

definition expectedRefresh :: "attempt \<Rightarrow> call list" where
  "expectedRefresh a =
     (if runResume a \<noteq> Some False then [RefreshThread (at_workspaceId a) (at_threadId a)] else [])"

text \<open>
  How the subscribe and refresh calls an attempt has made relate to the point where it
  stands: none before the point is reached, one after it.
\<close>

definition callsAgree :: "attempt \<Rightarrow> call list \<Rightarrow> bool" where
  "callsAgree a cs =
     (let subs = filter isSubscribe cs; refr = filter isRefresh cs;
          sub = ThreadLiveSubscribe (at_workspaceId a) (at_threadId a)
      in case point a of
           AtReconnectWorkspace \<Rightarrow> subs = [] \<and> refr = []
         | AtRefreshThread \<Rightarrow> subs = [] \<and> refr = expectedRefresh a \<and> runResume a \<noteq> Some False
         | AtUnsubscribeBeforeReattach \<Rightarrow> subs = [] \<and> refr = expectedRefresh a
         | AtSubscribe \<Rightarrow> subs = [sub] \<and> refr = expectedRefresh a
         | AtUnsubscribeStale \<Rightarrow> subs = [sub] \<and> refr = expectedRefresh a
         | Returned b \<Rightarrow>
             if b then subs = [sub] \<and> refr = expectedRefresh a
             else (subs = [] \<or> subs = [sub]) \<and> (refr = [] \<or> refr = expectedRefresh a))"

text \<open>
  The invariant: no attempt was started with a sequence number above the current one,
  every attempt's key is the key of its two ids, its calls agree with its point, every
  expiry time in the map of self-detach windows is positive, every call made by an
  attempt names an attempt that exists, later attempts were started with higher sequence
  numbers, and the in-flight record holds the key and the sequence number of the attempt
  whose promise it holds.
\<close>

definition invariant :: "coordinator \<Rightarrow> bool" where
  "invariant s =
     ((\<forall>q < length (attempts s).
          at_sequence (attempts s ! q) \<le> reconnectSequence s
          \<and> targetKey (attempts s ! q)
              = keyForThread (at_workspaceId (attempts s ! q)) (at_threadId (attempts s ! q))
          \<and> callsAgree (attempts s ! q) (callsOf q s))
      \<and> (\<forall>x \<in> set (ignoreDetachedEventsUntil s). 0 < snd x)
      \<and> (\<forall>x \<in> set (calls s). \<forall>q. fst x = Some q \<longrightarrow> q < length (attempts s))
      \<and> (\<forall>q < length (attempts s). \<forall>q' < q.
            at_sequence (attempts s ! q') < at_sequence (attempts s ! q))
      \<and> (\<forall>f. inFlightReconnect s = Some f \<longrightarrow>
            promise f < length (attempts s)
            \<and> key f = targetKey (attempts s ! promise f)
            \<and> sequence f = at_sequence (attempts s ! promise f)))"

text \<open>The calls made between a state and a later one.\<close>

definition emitted :: "coordinator \<Rightarrow> coordinator \<Rightarrow> call list" where
  "emitted s s' = map snd (drop (length (calls s)) (calls s'))"

text \<open>
  What a later state keeps of an attempt: its closure, and its result once it has
  returned.
\<close>

definition sameClosure :: "attempt \<Rightarrow> attempt \<Rightarrow> bool" where
  "sameClosure a a' =
     (targetKey a' = targetKey a \<and> at_workspaceId a' = at_workspaceId a
      \<and> at_threadId a' = at_threadId a \<and> runResume a' = runResume a
      \<and> at_sequence a' = at_sequence a
      \<and> (case point a of Returned b \<Rightarrow> point a' = Returned b | _ \<Rightarrow> True))"

text \<open>
  What one step may change: attempts are added but never removed, the sequence number
  stays or grows by one, the in-flight record stays as long as the sequence number
  stays and the recorded promise is unresolved, the promises given to callers are added
  to but never resolved anew, and an attempt that has returned makes no further call.
\<close>

definition evolves :: "coordinator \<Rightarrow> coordinator \<Rightarrow> bool" where
  "evolves s s' =
     (length (attempts s) \<le> length (attempts s')
      \<and> reconnectSequence s \<le> reconnectSequence s'
      \<and> reconnectSequence s' \<le> Suc (reconnectSequence s)
      \<and> (\<forall>q < length (attempts s). sameClosure (attempts s ! q) (attempts s' ! q))
      \<and> (case inFlightReconnect s of
            None \<Rightarrow> True
          | Some f \<Rightarrow>
              if reconnectSequence s' = reconnectSequence s \<and> pending s' (promise f)
              then inFlightReconnect s' = Some f else True)
      \<and> prefix (callerPromises s) (callerPromises s')
      \<and> (\<forall>q < length (attempts s). \<not> pending s q \<longrightarrow> callsOf q s' = callsOf q s))"

text \<open>
  The inputs that neither run the selection effect nor call \<^verbatim>\<open>reconnectLive\<close>: an awaited
  call settles, a \<^verbatim>\<open>finally\<close> callback runs, the window loses focus, the window gains focus
  or the visibility changes while the document is hidden, the component unmounts.
\<close>

fun quiet :: "env \<times> input \<Rightarrow> bool" where
  "quiet (e, Settle p out) = True"
| "quiet (e, Finally p) = True"
| "quiet (e, WindowBlur) = True"
| "quiet (e, WindowFocus) = (\<not> visible e)"
| "quiet (e, VisibilityChange) = (\<not> visible e)"
| "quiet (e, Unmount) = True"
| "quiet (e, Call w t opts) = False"
| "quiet (e, AppServerEvent ev) = False"
| "quiet (e, Render mode ws thread rw) = False"

text \<open>How many of its awaited calls an attempt has still to see fulfilled before it returns true.\<close>

fun callsAhead :: "await_point \<Rightarrow> nat" where
  "callsAhead AtReconnectWorkspace = 4"
| "callsAhead AtRefreshThread = 3"
| "callsAhead AtUnsubscribeBeforeReattach = 2"
| "callsAhead AtSubscribe = 1"
| "callsAhead AtUnsubscribeStale = 0"
| "callsAhead (Returned b) = 0"

subsection \<open>A sample environment and workspace\<close>

definition e0 :: env where
  "e0 = \<lparr> now = 1000, visible = True, focused = True \<rparr>"

definition ws1 :: WorkspaceInfo where
  "ws1 = \<lparr> ws_id = ''ws-1'', connected = True \<rparr>"

text \<open>
  The states the examples start from: a coordinator just created in remote mode with a
  connected workspace, without and with a selected thread; the same after one call of
  \<^verbatim>\<open>reconnectLive\<close>, without and with a refresh; a coordinator whose workspace is not
  connected and that has a \<^verbatim>\<open>reconnectWorkspace\<close> callback, after one call; and a
  coordinator that is subscribed to its thread and has been asked to subscribe again.
\<close>

definition idle1 :: coordinator where
  "idle1 = initial ''remote'' (Some ws1) None False"

definition selected1 :: coordinator where
  "selected1 = initial ''remote'' (Some ws1) (Some ''thread-1'') False"

definition subscribing1 :: coordinator where
  "subscribing1 = fst (reconnectLive ''ws-1'' ''thread-1'' (Some False) e0 idle1)"

definition refreshing1 :: coordinator where
  "refreshing1 = fst (reconnectLive ''ws-1'' ''thread-1'' (Some True) e0 idle1)"

definition reconnecting1 :: coordinator where
  "reconnecting1 =
     fst (reconnectLive ''ws-1'' ''thread-1'' None e0
            (initial ''remote'' (Some \<lparr> ws_id = ''ws-1'', connected = False \<rparr>) None True))"

definition resubscribing1 :: coordinator where
  "resubscribing1 =
     run [(e0, Call ''ws-1'' ''thread-1'' (Some False)), (e0, Settle 0 Fulfilled), (e0, Finally 0),
          (e0, Call ''ws-1'' ''thread-1'' (Some False))] selected1"

definition heartbeat1 :: app_event where
  "heartbeat1 = \<lparr> workspace_id = ''ws-1'', rawMethod = Some ''thread/live_heartbeat'',
                  params_of = [(''threadId'', JStr ''thread-1'')] \<rparr>"

definition detached1 :: app_event where
  "detached1 = \<lparr> workspace_id = ''ws-1'', rawMethod = Some ''thread/live_detached'',
                 params_of = [(''threadId'', JStr ''thread-1'')] \<rparr>"

text \<open>The document hidden.\<close>

definition hidden :: env where
  "hidden = \<lparr> now = 1000, visible = False, focused = False \<rparr>"

text \<open>Twenty seconds after the epoch, the document visible, the window not focused.\<close>

definition late :: env where
  "late = \<lparr> now = 20000, visible = True, focused = False \<rparr>"

section \<open>Subscription keys\<close>

lemma indexOf_fresh: "c \<notin> set w \<Longrightarrow> indexOf (w @ c # t) c = int (length w)"
  by (induction w) (auto simp: Let_def)

lemma indexOf_member: "c \<in> set w \<Longrightarrow> 0 \<le> indexOf w c \<and> indexOf w c < int (length w)"
  by (induction w) (auto simp: Let_def)

lemma indexOf_member_append: "c \<in> set w \<Longrightarrow> indexOf (w @ r) c = indexOf w c"
proof (induction w)
  case Nil
  then show ?case by simp
next
  case (Cons x w)
  show ?case
  proof (cases "x = c")
    case True
    then show ?thesis by simp
  next
    case False
    with Cons.prems have "c \<in> set w" by simp
    with Cons.IH False show ?thesis by simp
  qed
qed

lemma splitKey_keyForThread:
  assumes "w \<noteq> []" and "t \<noteq> []" and "CHR '':'' \<notin> set w"
  shows "splitKey (keyForThread w t) = Some \<lparr> workspaceId = w, threadId = t \<rparr>"
proof -
  have i: "indexOf (w @ CHR '':'' # t) CHR '':'' = int (length w)"
    using assms(3) by (rule indexOf_fresh)
  from assms(1,2) have "0 < length w" "0 < length t" by simp_all
  moreover have "nat (int (length w) + 1) = Suc (length w)" by simp
  ultimately show ?thesis
    by (simp add: splitKey_def keyForThread_def i Let_def)
qed

lemma splitKey_keyForThread_colon:
  assumes "CHR '':'' \<in> set w"
  shows "splitKey (keyForThread w t) \<noteq> Some \<lparr> workspaceId = w, threadId = t \<rparr>"
proof
  assume eq: "splitKey (keyForThread w t) = Some \<lparr> workspaceId = w, threadId = t \<rparr>"
  let ?i = "indexOf w CHR '':''"
  have i: "indexOf (keyForThread w t) CHR '':'' = ?i"
    using assms by (simp add: keyForThread_def indexOf_member_append)
  have bounds: "0 \<le> ?i" "?i < int (length w)"
    using indexOf_member [OF assms] by simp_all
  from eq have "take (nat ?i) (keyForThread w t) = w"
    by (simp add: splitKey_def i Let_def split: if_splits)
  then have "length (take (nat ?i) (keyForThread w t)) = length w" by simp
  with bounds show False by (simp add: keyForThread_def)
qed

text \<open>
  C7, as stated, fails: \<^verbatim>\<open>splitKey\<close> cuts at the first colon, so a workspace id that
  contains a colon does not come back. The workspace id \<^verbatim>\<open>a:b\<close> with the thread id \<^verbatim>\<open>c\<close>
  is parsed as the workspace \<^verbatim>\<open>a\<close> and the thread \<^verbatim>\<open>b:c\<close>.
\<close>

theorem key_round_trip_counterexample:
  "''a:b'' \<noteq> [] \<and> ''c'' \<noteq> [] \<and>
   splitKey (keyForThread ''a:b'' ''c'') = Some \<lparr> workspaceId = ''a'', threadId = ''b:c'' \<rparr> \<and>
   splitKey (keyForThread ''a:b'' ''c'') \<noteq> Some \<lparr> workspaceId = ''a:b'', threadId = ''c'' \<rparr>"
  by (simp add: splitKey_def keyForThread_def)

text \<open>
  C7, amended: for every non-empty workspace id and non-empty thread id, parsing the
  formatted key gives back exactly the pair if and only if the workspace id contains no
  colon. (The thread id may contain colons.)
\<close>

theorem key_round_trip:
  "w \<noteq> [] \<Longrightarrow> t \<noteq> [] \<Longrightarrow>
   (splitKey (keyForThread w t) = Some \<lparr> workspaceId = w, threadId = t \<rparr>)
     = (CHR '':'' \<notin> set w)"
  using splitKey_keyForThread [of w t] splitKey_keyForThread_colon [of w t] by blast

theorem key_round_trip_witness:
  "''ws-1'' \<noteq> [] \<and> ''thread:1'' \<noteq> [] \<and>
   splitKey (keyForThread ''ws-1'' ''thread:1'')
     = Some \<lparr> workspaceId = ''ws-1'', threadId = ''thread:1'' \<rparr>"
  using key_round_trip [of "''ws-1''" "''thread:1''"] by simp

section \<open>The resting state\<close>

lemma connectionState_setState [simp]: "connectionState (setState n s) = n"
  by (simp add: setState_def)

lemma connectionState_reconcile:
  "connectionState (reconcileDisconnectedState s)
     = initialConnectionState (backendMode s) (activeWorkspace s)"
  by (simp add: reconcileDisconnectedState_def initialConnectionState_def)

lemma reconcile_fixed:
  "connectionState s = initialConnectionState (backendMode s) (activeWorkspace s)
   \<Longrightarrow> reconcileDisconnectedState s = s"
  by (auto simp: reconcileDisconnectedState_def initialConnectionState_def setState_def)

text \<open>
  C9: the state the hook is created with is \<open>Disconnected\<close> when the workspace is absent
  or not connected, and otherwise \<open>Polling\<close> in remote mode and \<open>Live\<close> in any other mode.
  \<^verbatim>\<open>reconcileDisconnectedState\<close> sets the connection state to the same function of the
  backend mode and the workspace, so that run on the state at creation it changes nothing.
\<close>

theorem initial_state_is_resting_state:
  "initialConnectionState mode None = Disconnected \<and>
   initialConnectionState mode (Some i) =
     (if \<not> connected i then Disconnected else if mode = ''remote'' then Polling else Live) \<and>
   connectionState (initial mode ws thread rw) = initialConnectionState mode ws \<and>
   connectionState (reconcileDisconnectedState s)
     = initialConnectionState (backendMode s) (activeWorkspace s) \<and>
   reconcileDisconnectedState (initial mode ws thread rw) = initial mode ws thread rw"
proof -
  have "initialConnectionState mode None = Disconnected"
    by (simp add: initialConnectionState_def isConnected_def)
  moreover have "initialConnectionState mode (Some i) =
     (if \<not> connected i then Disconnected else if mode = ''remote'' then Polling else Live)"
    by (simp add: initialConnectionState_def isConnected_def)
  moreover have "connectionState (initial mode ws thread rw) = initialConnectionState mode ws"
    by (simp add: initial_def)
  moreover have "reconcileDisconnectedState (initial mode ws thread rw) = initial mode ws thread rw"
    by (rule reconcile_fixed) (simp add: initial_def)
  ultimately show ?thesis
    using connectionState_reconcile [of s] by simp
qed

theorem initial_state_is_resting_state_witness:
  "initialConnectionState ''local'' (Some \<lparr> ws_id = ''ws-1'', connected = True \<rparr>) = Live \<and>
   initialConnectionState ''remote'' (Some \<lparr> ws_id = ''ws-1'', connected = True \<rparr>) = Polling \<and>
   initialConnectionState ''remote'' (Some \<lparr> ws_id = ''ws-1'', connected = False \<rparr>) = Disconnected \<and>
   initialConnectionState ''local'' None = Disconnected"
  using initial_state_is_resting_state
      [of "''local''" "\<lparr> ws_id = ''ws-1'', connected = True \<rparr>" None None False
          "initial ''local'' None None False"]
    initial_state_is_resting_state
      [of "''remote''" "\<lparr> ws_id = ''ws-1'', connected = True \<rparr>" None None False
          "initial ''local'' None None False"]
    initial_state_is_resting_state
      [of "''remote''" "\<lparr> ws_id = ''ws-1'', connected = False \<rparr>" None None False
          "initial ''local'' None None False"]
  by simp

section \<open>Thread-id extraction\<close>

lemma idText_claimedId:
  "trim (js_String (coalesce (coalesce (property obj ''threadId'') (property obj ''thread_id''))
           (JStr '''')))
     = (case claimedId obj of None \<Rightarrow> [] | Some i \<Rightarrow> i)"
  by (simp add: claimedId_def coalesce_def Let_def trim_def)

lemma claimedId_nonempty: "claimedId obj = Some i \<Longrightarrow> i \<noteq> []"
  by (auto simp: claimedId_def Let_def split: if_splits)

lemma property_coalesce_empty:
  "property (coalesce v (JObj [])) name = property v name"
  by (cases v) (simp_all add: coalesce_def getProp_def)

lemma claimedId_turn:
  "claimedId (coalesce v (JObj [])) = claimedId v"
  by (simp add: claimedId_def property_coalesce_empty)

lemma direct_claimedId:
  "trim (js_String (coalesce (coalesce (getProp params ''threadId'') (getProp params ''thread_id''))
           (JStr '''')))
     = (case claimedId (JObj params) of None \<Rightarrow> [] | Some i \<Rightarrow> i)"
  using idText_claimedId [of "JObj params"] by simp

text \<open>
  C10: \<^verbatim>\<open>extractThreadId\<close> computes what the specification words. For
  \<^verbatim>\<open>turn/started\<close>, \<^verbatim>\<open>turn/completed\<close> and \<^verbatim>\<open>error\<close> it gives the id nested in
  \<^verbatim>\<open>params.turn\<close> (its \<^verbatim>\<open>threadId\<close>, or else its \<^verbatim>\<open>thread_id\<close>), and when that is missing
  or blank after trimming, the top-level id; for every method, an id missing or blank in
  both places gives null.
\<close>

theorem extractThreadId_fallback:
  "extractThreadId method params = extractThreadId_claimed method params \<and>
   (claimedId (getProp params ''turn'') = None \<and> claimedId (JObj params) = None
      \<longrightarrow> extractThreadId method params = None)"
proof -
  have eq: "extractThreadId method params = extractThreadId_claimed method params"
    unfolding extractThreadId_def extractThreadId_claimed_def Let_def direct_claimedId
      idText_claimedId claimedId_turn
    by (auto split: option.splits dest: claimedId_nonempty)
  then show ?thesis
    by (simp add: extractThreadId_claimed_def)
qed

theorem extractThreadId_fallback_witness:
  "extractThreadId ''turn/started''
     [(''turn'', JObj [(''threadId'', JStr ''  '')]), (''thread_id'', JStr '' t-1 '')] = Some ''t-1'' \<and>
   extractThreadId ''turn/started''
     [(''turn'', JObj [(''thread_id'', JStr ''t-9'')]), (''threadId'', JStr ''t-1'')] = Some ''t-9'' \<and>
   extractThreadId ''item/started''
     [(''turn'', JObj [(''threadId'', JStr ''t-9'')]), (''threadId'', JStr ''t-1'')] = Some ''t-1'' \<and>
   extractThreadId ''error'' [(''turn'', JNull), (''threadId'', JStr [CHR 0x09, CHR 0x20])] = None"
  using extractThreadId_fallback
    [of "''turn/started''" "[(''turn'', JObj [(''threadId'', JStr ''  '')]), (''thread_id'', JStr '' t-1 '')]"]
    extractThreadId_fallback
    [of "''turn/started''" "[(''turn'', JObj [(''thread_id'', JStr ''t-9'')]), (''threadId'', JStr ''t-1'')]"]
    extractThreadId_fallback
    [of "''item/started''" "[(''turn'', JObj [(''threadId'', JStr ''t-9'')]), (''threadId'', JStr ''t-1'')]"]
    extractThreadId_fallback
    [of "''error''" "[(''turn'', JNull), (''threadId'', JStr [CHR 0x09, CHR 0x20])]"]
  by (simp add: extractThreadId_claimed_def claimedId_def coalesce_def getProp_def trim_def
        js_space_def Let_def)

section \<open>The state machine\<close>

subsection \<open>Frames\<close>


lemma setState_eq: "setState n s = s\<lparr>connectionState := n\<rparr>"
  by (simp add: setState_def)

lemma reconcile_eq:
  "reconcileDisconnectedState s
     = s\<lparr>connectionState := initialConnectionState (backendMode s) (activeWorkspace s)\<rparr>"
  by (simp add: reconcileDisconnectedState_def initialConnectionState_def setState_eq)

lemma unsubscribeByKey_eq:
  "unsubscribeByKey k s =
     s\<lparr>calls := calls s @ (case splitKey k of None \<Rightarrow> []
          | Some parsed \<Rightarrow> [(None, ThreadLiveUnsubscribe (workspaceId parsed) (threadId parsed))])\<rparr>"
  by (simp add: unsubscribeByKey_def issue_def split: option.splits)

lemmas body_defs = catchBlock_def callSubscribe_def afterSubscribe_def
  afterUnsubscribeBeforeReattach_def afterRefreshThread_def afterReconnectWorkspace_def
  issue_def setState_eq reconcile_eq

lemma callsOf_append:
  "callsOf p (s\<lparr>calls := calls s @ cs\<rparr>) = callsOf p s @ map snd (filter (\<lambda>x. fst x = Some p) cs)"
  by (simp add: callsOf_def)

lemma set_update_subset: "set (AList.update k v al) \<subseteq> insert (k, v) (set al)"
  by (induction al) auto

lemma set_delete_subset: "set (AList.delete k al) \<subseteq> set al"
  by (induction al) auto

text \<open>What one stretch of an attempt's body changes.\<close>

lemma resume_frame:
  assumes "resume p a out e s = (s', pt)"
  shows "attempts s' = attempts s" "reconnectSequence s' = reconnectSequence s"
    "inFlightReconnect s' = inFlightReconnect s" "desiredSubscriptionKey s' = desiredSubscriptionKey s"
    "backendMode s' = backendMode s" "activeWorkspace s' = activeWorkspace s"
    "activeThreadId s' = activeThreadId s" "reconnectWorkspace s' = reconnectWorkspace s"
    "callerPromises s' = callerPromises s"
  using assms
  by (auto simp: resume_def body_defs split: await_point.splits outcome.splits if_splits)

lemma resume_calls:
  assumes "resume p a out e s = (s', pt)"
  shows "calls s' = calls s @ map (Pair (Some p)) (emitted s s')"
    and "callsAgree a cs \<Longrightarrow> \<forall>b. point a \<noteq> Returned b \<Longrightarrow>
           callsAgree (a\<lparr>point := pt\<rparr>) (cs @ emitted s s')"
  using assms
  by (cases "point a"; cases out;
      auto simp: resume_def body_defs emitted_def callsAgree_def expectedRefresh_def
      split: if_splits)+

lemma resume_windows:
  assumes "resume p a out e s = (s', pt)"
  shows "set (ignoreDetachedEventsUntil s')
           \<subseteq> insert (targetKey a, now e + SELF_DETACH_IGNORE_WINDOW_MS) (set (ignoreDetachedEventsUntil s))"
  using assms set_update_subset [of "targetKey a" "now e + SELF_DETACH_IGNORE_WINDOW_MS" "ignoreDetachedEventsUntil s"]
  by (cases "point a"; cases out;
      auto simp: resume_def body_defs split: if_splits)


lemma callsOf_emitted:
  "calls s' = calls s @ map (Pair (Some p)) new \<Longrightarrow>
   callsOf q s' = callsOf q s @ (if q = p then new else [])"
  by (simp add: callsOf_def filter_map comp_def)

lemma startAttempt_frame:
  assumes "startAttempt p w t opts e s = (s', a)"
  shows "attempts s' = attempts s" "reconnectSequence s' = Suc (reconnectSequence s)"
    "inFlightReconnect s' = inFlightReconnect s"
    "desiredSubscriptionKey s' = Some (keyForThread w t)"
    "backendMode s' = backendMode s" "activeWorkspace s' = activeWorkspace s"
    "activeThreadId s' = activeThreadId s" "reconnectWorkspace s' = reconnectWorkspace s"
    "activeSubscriptionKey s' = activeSubscriptionKey s"
    "callerPromises s' = callerPromises s"
  using assms
  by (auto simp: startAttempt_def body_defs Let_def split: option.splits if_splits)

lemma startAttempt_attempt:
  assumes "startAttempt p w t opts e s = (s', a)"
  shows "targetKey a = keyForThread w t" "at_workspaceId a = w" "at_threadId a = t"
    "runResume a = opts" "at_sequence a = Suc (reconnectSequence s)" "finallyPending a"
    "\<forall>b. point a \<noteq> Returned b"
  using assms
  by (auto simp: startAttempt_def body_defs Let_def split: option.splits if_splits)

lemma startAttempt_calls:
  assumes "startAttempt p w t opts e s = (s', a)"
  shows "calls s' = calls s @ map (Pair (Some p)) (emitted s s')"
    and "callsAgree a (emitted s s')"
  using assms
  by (auto simp: startAttempt_def body_defs Let_def emitted_def callsAgree_def expectedRefresh_def
      split: option.splits if_splits)

lemma startAttempt_windows:
  assumes "startAttempt p w t opts e s = (s', a)"
  shows "set (ignoreDetachedEventsUntil s')
           \<subseteq> insert (keyForThread w t, now e + SELF_DETACH_IGNORE_WINDOW_MS)
               (set (ignoreDetachedEventsUntil s))"
  using assms set_update_subset [of "keyForThread w t" "now e + SELF_DETACH_IGNORE_WINDOW_MS"
      "ignoreDetachedEventsUntil s"]
  by (auto simp: startAttempt_def body_defs Let_def split: option.splits if_splits)


subsection \<open>The three ways through \<^verbatim>\<open>reconnectLive\<close>\<close>

lemma reconnectLive_rejected:
  "backendMode s \<noteq> ''remote'' \<or> w = [] \<or> t = [] \<or> activeWorkspace s = None \<Longrightarrow>
   reconnectLive w t opts e s
     = ((reconcileDisconnectedState s)\<lparr>callerPromises := callerPromises s @ [ReturnFalse]\<rparr>,
        ReturnFalse)"
  by (simp add: reconnectLive_def asyncReturn_def reconcile_eq)

lemma reconnectLive_coalesced:
  assumes "backendMode s = ''remote''" "w \<noteq> []" "t \<noteq> []" "activeWorkspace s \<noteq> None"
    and "inFlightReconnect s = Some f" "key f = keyForThread w t"
    and "sequence f = reconnectSequence s"
  shows "reconnectLive w t opts e s
           = (s\<lparr>desiredSubscriptionKey := Some (keyForThread w t),
             callerPromises := callerPromises s @ [ReturnPromise (promise f)]\<rparr>,
           ReturnPromise (promise f))"
  using assms by (simp add: reconnectLive_def asyncReturn_def)

lemma reconnectLive_started:
  assumes "backendMode s = ''remote''" "w \<noteq> []" "t \<noteq> []" "activeWorkspace s \<noteq> None"
    and "\<forall>f. inFlightReconnect s = Some f \<longrightarrow>
           key f \<noteq> keyForThread w t \<or> sequence f \<noteq> reconnectSequence s"
    and "startAttempt (length (attempts s)) w t opts e
           (case inFlightReconnect s of
              None \<Rightarrow> s\<lparr>desiredSubscriptionKey := Some (keyForThread w t)\<rparr>
            | Some f \<Rightarrow>
                if key f = keyForThread w t
                then s\<lparr>desiredSubscriptionKey := Some (keyForThread w t),
                       inFlightReconnect := None\<rparr>
                else s\<lparr>desiredSubscriptionKey := Some (keyForThread w t)\<rparr>) = (s3, a)"
  shows "reconnectLive w t opts e s
           = (s3\<lparr>inFlightReconnect :=
                    Some \<lparr> key = keyForThread w t, sequence = Suc (reconnectSequence s),
                           promise = length (attempts s) \<rparr>,
                  attempts := attempts s @ [a],
                callerPromises := callerPromises s @ [ReturnPromise (length (attempts s))]\<rparr>,
              ReturnPromise (length (attempts s)))"
proof (cases "inFlightReconnect s")
  case None
  with assms(1-4,6) startAttempt_frame(1,2,10) [OF assms(6)] show ?thesis
    by (simp add: reconnectLive_def asyncReturn_def Let_def)
next
  case (Some f)
  with assms(5) have "key f \<noteq> keyForThread w t \<or> sequence f \<noteq> reconnectSequence s" by simp
  with Some assms(1-4,6) startAttempt_frame(1,2,10) [OF assms(6)] show ?thesis
    by (auto simp: reconnectLive_def asyncReturn_def Let_def split: if_splits)
qed

lemma reconnectLive_cases:
  "reconnectLive w t opts e s
     = ((reconcileDisconnectedState s)\<lparr>callerPromises := callerPromises s @ [ReturnFalse]\<rparr>,
        ReturnFalse)
   \<or> (\<exists>f. inFlightReconnect s = Some f \<and> key f = keyForThread w t
          \<and> sequence f = reconnectSequence s
          \<and> reconnectLive w t opts e s
              = (s\<lparr>desiredSubscriptionKey := Some (keyForThread w t),
             callerPromises := callerPromises s @ [ReturnPromise (promise f)]\<rparr>,
           ReturnPromise (promise f)))
   \<or> (\<exists>s2 s3 a. attempts s2 = attempts s \<and> calls s2 = calls s
          \<and> reconnectSequence s2 = reconnectSequence s
          \<and> ignoreDetachedEventsUntil s2 = ignoreDetachedEventsUntil s
          \<and> startAttempt (length (attempts s)) w t opts e s2 = (s3, a)
          \<and> reconnectLive w t opts e s
              = (s3\<lparr>inFlightReconnect :=
                       Some \<lparr> key = keyForThread w t, sequence = Suc (reconnectSequence s),
                              promise = length (attempts s) \<rparr>,
                     attempts := attempts s @ [a],
                callerPromises := callerPromises s @ [ReturnPromise (length (attempts s))]\<rparr>,
                 ReturnPromise (length (attempts s))))"
proof (cases "backendMode s \<noteq> ''remote'' \<or> w = [] \<or> t = [] \<or> activeWorkspace s = None")
  case True
  then show ?thesis by (simp add: reconnectLive_rejected)
next
  case ok: False
  show ?thesis
  proof (cases "\<exists>f. inFlightReconnect s = Some f \<and> key f = keyForThread w t
                  \<and> sequence f = reconnectSequence s")
    case True
    then obtain f where "inFlightReconnect s = Some f" "key f = keyForThread w t"
      "sequence f = reconnectSequence s" by blast
    with ok show ?thesis
      using reconnectLive_coalesced [of s w t f opts e] by simp
  next
    case False
    let ?s2 = "case inFlightReconnect s of
              None \<Rightarrow> s\<lparr>desiredSubscriptionKey := Some (keyForThread w t)\<rparr>
            | Some f \<Rightarrow>
                if key f = keyForThread w t
                then s\<lparr>desiredSubscriptionKey := Some (keyForThread w t),
                       inFlightReconnect := None\<rparr>
                else s\<lparr>desiredSubscriptionKey := Some (keyForThread w t)\<rparr>"
    obtain s3 a where st: "startAttempt (length (attempts s)) w t opts e ?s2 = (s3, a)"
      by (cases "startAttempt (length (attempts s)) w t opts e ?s2")
    from False have "\<forall>f. inFlightReconnect s = Some f \<longrightarrow>
           key f \<noteq> keyForThread w t \<or> sequence f \<noteq> reconnectSequence s" by blast
    with ok st have "reconnectLive w t opts e s
           = (s3\<lparr>inFlightReconnect :=
                    Some \<lparr> key = keyForThread w t, sequence = Suc (reconnectSequence s),
                           promise = length (attempts s) \<rparr>,
                  attempts := attempts s @ [a],
                callerPromises := callerPromises s @ [ReturnPromise (length (attempts s))]\<rparr>,
              ReturnPromise (length (attempts s)))"
      using reconnectLive_started [of s w t opts e s3 a] by simp
    moreover have "attempts ?s2 = attempts s" "calls ?s2 = calls s"
      "reconnectSequence ?s2 = reconnectSequence s"
      "ignoreDetachedEventsUntil ?s2 = ignoreDetachedEventsUntil s"
      by (simp_all split: option.splits)
    ultimately show ?thesis
      using st by blast
  qed
qed

subsection \<open>The invariant\<close>

lemma invariant_callerPromises [simp]: "invariant (s\<lparr>callerPromises := x\<rparr>) = invariant s"
  by (simp add: invariant_def callsOf_def)

lemma invariant_weaken:
  assumes "invariant s"
    and "attempts s' = attempts s"
    and "reconnectSequence s \<le> reconnectSequence s'"
    and "set (ignoreDetachedEventsUntil s') \<subseteq> set (ignoreDetachedEventsUntil s)"
    and "calls s' = calls s @ map (Pair None) cs"
    and "inFlightReconnect s' = inFlightReconnect s \<or> inFlightReconnect s' = None"
  shows "invariant s'"
proof -
  have "callsOf q s' = callsOf q s" for q
    using assms(5) by (simp add: callsOf_def filter_map comp_def)
  with assms show ?thesis
    by (auto simp: invariant_def split: option.splits dest: le_trans)
qed

lemma invariant_same:
  assumes "invariant s"
    and "attempts s' = attempts s" "reconnectSequence s' = reconnectSequence s"
    and "ignoreDetachedEventsUntil s' = ignoreDetachedEventsUntil s" "calls s' = calls s"
    and "inFlightReconnect s' = inFlightReconnect s"
  shows "invariant s'"
  using invariant_weaken [of s s' "[]"] assms by simp

lemma callsOf_fresh:
  assumes "invariant s"
  shows "callsOf (length (attempts s)) s = []"
proof -
  have "\<forall>x \<in> set (calls s). fst x \<noteq> Some (length (attempts s))"
    using assms by (auto simp: invariant_def split: option.splits)
  then show ?thesis
    by (simp add: callsOf_def filter_empty_conv)
qed

lemma invariant_initial: "invariant (initial mode ws thread rw)"
  by (simp add: invariant_def initial_def)

lemma invariant_reconnectLive:
  assumes "invariant s"
  shows "invariant (fst (reconnectLive w t opts e s))"
proof -
  from reconnectLive_cases [of w t opts e s] show ?thesis
  proof (elim disjE exE conjE)
    assume rejected: "reconnectLive w t opts e s
        = ((reconcileDisconnectedState s)\<lparr>callerPromises := callerPromises s @ [ReturnFalse]\<rparr>,
            ReturnFalse)"
    with assms show ?thesis
      by (auto intro: invariant_same [of s] simp: reconcile_eq)
  next
    fix f
    assume "reconnectLive w t opts e s
        = (s\<lparr>desiredSubscriptionKey := Some (keyForThread w t),
             callerPromises := callerPromises s @ [ReturnPromise (promise f)]\<rparr>,
           ReturnPromise (promise f))"
    with assms show ?thesis
      by (auto intro: invariant_same [of s])
  next
    fix s2 s3 a
    assume started: "attempts s2 = attempts s" "calls s2 = calls s"
      "reconnectSequence s2 = reconnectSequence s"
      "ignoreDetachedEventsUntil s2 = ignoreDetachedEventsUntil s"
      "startAttempt (length (attempts s)) w t opts e s2 = (s3, a)"
      "reconnectLive w t opts e s
         = (s3\<lparr>inFlightReconnect :=
                  Some \<lparr> key = keyForThread w t, sequence = Suc (reconnectSequence s),
                         promise = length (attempts s) \<rparr>,
                attempts := attempts s @ [a],
                callerPromises := callerPromises s @ [ReturnPromise (length (attempts s))]\<rparr>,
            ReturnPromise (length (attempts s)))"
    let ?p = "length (attempts s)"
    let ?r = "s3\<lparr>inFlightReconnect :=
                  Some \<lparr> key = keyForThread w t, sequence = Suc (reconnectSequence s),
                         promise = ?p \<rparr>,
                attempts := attempts s @ [a]\<rparr>"
    note st = started(5)
    have seq: "reconnectSequence ?r = Suc (reconnectSequence s)"
      using startAttempt_frame(2) [OF st] started(3) by simp
    have cl: "calls ?r = calls s @ map (Pair (Some ?p)) (emitted s2 s3)"
      using startAttempt_calls(1) [OF st] started(2) by simp
    have co: "callsOf q ?r = callsOf q s @ (if q = ?p then emitted s2 s3 else [])" for q
      using callsOf_emitted [OF cl] .
    have win: "set (ignoreDetachedEventsUntil ?r)
        \<subseteq> insert (keyForThread w t, now e + SELF_DETACH_IGNORE_WINDOW_MS)
            (set (ignoreDetachedEventsUntil s))"
      using startAttempt_windows [OF st] started(4) by simp
    have old: "at_sequence (attempts ?r ! q) \<le> reconnectSequence ?r
          \<and> targetKey (attempts ?r ! q)
              = keyForThread (at_workspaceId (attempts ?r ! q)) (at_threadId (attempts ?r ! q))
          \<and> callsAgree (attempts ?r ! q) (callsOf q ?r)" if "q < length (attempts ?r)" for q
    proof (cases "q < ?p")
      case True
      with assms have "at_sequence (attempts s ! q) \<le> reconnectSequence s"
        "targetKey (attempts s ! q)
           = keyForThread (at_workspaceId (attempts s ! q)) (at_threadId (attempts s ! q))"
        "callsAgree (attempts s ! q) (callsOf q s)"
        by (simp_all add: invariant_def)
      with True seq co [of q] show ?thesis
        by (simp add: nth_append)
    next
      case False
      with that have q: "q = ?p" by simp
      have "callsOf ?p ?r = emitted s2 s3"
        using co [of ?p] callsOf_fresh [OF assms] by simp
      with q seq startAttempt_attempt [OF st] startAttempt_calls(2) [OF st] started(3)
      show ?thesis by (simp add: nth_append)
    qed
    have pos: "\<forall>x \<in> set (ignoreDetachedEventsUntil ?r). 0 < snd x"
      using win assms by (auto simp: invariant_def SELF_DETACH_IGNORE_WINDOW_MS_def)
    have tags: "\<forall>x \<in> set (calls ?r). \<forall>q. fst x = Some q \<longrightarrow> q < length (attempts ?r)"
      using assms by (auto simp: cl invariant_def split: option.splits)
    have ord: "at_sequence (attempts ?r ! q') < at_sequence (attempts ?r ! q)"
      if "q < length (attempts ?r)" "q' < q" for q q'
    proof (cases "q < ?p")
      case True
      with assms that(2) have "at_sequence (attempts s ! q') < at_sequence (attempts s ! q)"
        by (simp add: invariant_def)
      with True that(2) show ?thesis by (simp add: nth_append)
    next
      case False
      with that have q: "q = ?p" "q' < ?p" by simp_all
      with assms have "at_sequence (attempts s ! q') \<le> reconnectSequence s"
        by (simp add: invariant_def)
      with q startAttempt_attempt(5) [OF st] started(3) show ?thesis
        by (simp add: nth_append)
    qed
    have infl: "\<forall>f. inFlightReconnect ?r = Some f \<longrightarrow>
            promise f < length (attempts ?r)
            \<and> key f = targetKey (attempts ?r ! promise f)
            \<and> sequence f = at_sequence (attempts ?r ! promise f)"
      using startAttempt_attempt(1,5) [OF st] started(3) by auto
    from old pos tags ord infl have "invariant ?r"
      unfolding invariant_def by blast
    with started(6) show ?thesis by simp
  qed
qed


subsection \<open>Settling and the \<^verbatim>\<open>finally\<close> callback\<close>

lemma settle_idle: "\<not> pending s p \<Longrightarrow> settle p out e s = s"
  by (simp add: settle_def)

lemma settle_pending:
  assumes "pending s p" and "resume p (attempts s ! p) out e s = (s', pt)"
  shows "settle p out e s = s'\<lparr>attempts := (attempts s)[p := (attempts s ! p)\<lparr>point := pt\<rparr>]\<rparr>"
  using assms resume_frame(1) [OF assms(2)] by (simp add: settle_def)

lemma invariant_settle:
  assumes "invariant s"
  shows "invariant (settle p out e s)"
proof (cases "pending s p")
  case False
  with assms show ?thesis by (simp add: settle_idle)
next
  case True
  let ?a = "attempts s ! p"
  obtain s' pt where r: "resume p ?a out e s = (s', pt)"
    by (cases "resume p ?a out e s")
  let ?r = "s'\<lparr>attempts := (attempts s)[p := ?a\<lparr>point := pt\<rparr>]\<rparr>"
  from True have p: "p < length (attempts s)" and pend: "\<forall>b. point ?a \<noteq> Returned b"
    by (auto simp: pending_def split: await_point.splits)
  have cl: "calls ?r = calls s @ map (Pair (Some p)) (emitted s s')"
    using resume_calls(1) [OF r] by simp
  have co: "callsOf q ?r = callsOf q s @ (if q = p then emitted s s' else [])" for q
    using callsOf_emitted [OF cl] .
  have seq: "reconnectSequence ?r = reconnectSequence s"
    using resume_frame(2) [OF r] by simp
  have win: "set (ignoreDetachedEventsUntil ?r)
      \<subseteq> insert (targetKey ?a, now e + SELF_DETACH_IGNORE_WINDOW_MS)
          (set (ignoreDetachedEventsUntil s))"
    using resume_windows [OF r] by simp
  have each: "at_sequence (attempts ?r ! q) \<le> reconnectSequence ?r
        \<and> targetKey (attempts ?r ! q)
            = keyForThread (at_workspaceId (attempts ?r ! q)) (at_threadId (attempts ?r ! q))
        \<and> callsAgree (attempts ?r ! q) (callsOf q ?r)" if "q < length (attempts ?r)" for q
  proof -
    from that have q: "q < length (attempts s)" by simp
    with assms have old: "at_sequence (attempts s ! q) \<le> reconnectSequence s"
      "targetKey (attempts s ! q)
         = keyForThread (at_workspaceId (attempts s ! q)) (at_threadId (attempts s ! q))"
      "callsAgree (attempts s ! q) (callsOf q s)"
      by (simp_all add: invariant_def)
    show ?thesis
    proof (cases "q = p")
      case True
      with old resume_calls(2) [OF r, of "callsOf p s"] pend
      have "callsAgree (?a\<lparr>point := pt\<rparr>) (callsOf p s @ emitted s s')" by simp
      with True old p seq co [of p] show ?thesis by simp
    next
      case False
      with old q seq co [of q] show ?thesis by simp
    qed
  qed
  have pos: "\<forall>x \<in> set (ignoreDetachedEventsUntil ?r). 0 < snd x"
    using win assms by (auto simp: invariant_def SELF_DETACH_IGNORE_WINDOW_MS_def)
  have tags: "\<forall>x \<in> set (calls ?r). \<forall>q. fst x = Some q \<longrightarrow> q < length (attempts ?r)"
    using assms p by (auto simp: cl invariant_def split: option.splits)
  have same: "at_sequence (attempts ?r ! q) = at_sequence (attempts s ! q)
      \<and> targetKey (attempts ?r ! q) = targetKey (attempts s ! q)"
    if "q < length (attempts s)" for q
    using that by (cases "q = p") simp_all
  have ord: "at_sequence (attempts ?r ! q') < at_sequence (attempts ?r ! q)"
    if "q < length (attempts ?r)" "q' < q" for q q'
  proof -
    from that have "q < length (attempts s)" "q' < length (attempts s)" by simp_all
    with assms that(2) same [of q] same [of q'] show ?thesis
      by (simp add: invariant_def)
  qed
  have infl: "\<forall>f. inFlightReconnect ?r = Some f \<longrightarrow>
          promise f < length (attempts ?r)
          \<and> key f = targetKey (attempts ?r ! promise f)
          \<and> sequence f = at_sequence (attempts ?r ! promise f)"
  proof (intro allI impI)
    fix f
    assume "inFlightReconnect ?r = Some f"
    with resume_frame(3) [OF r] have "inFlightReconnect s = Some f" by simp
    with assms have "promise f < length (attempts s)"
      "key f = targetKey (attempts s ! promise f)"
      "sequence f = at_sequence (attempts s ! promise f)"
      by (simp_all add: invariant_def)
    with same [of "promise f"]
    show "promise f < length (attempts ?r)
          \<and> key f = targetKey (attempts ?r ! promise f)
          \<and> sequence f = at_sequence (attempts ?r ! promise f)"
      by simp
  qed
  from each pos tags ord infl have "invariant ?r"
    unfolding invariant_def by blast
  with settle_pending [OF True r] show ?thesis by simp
qed

lemma evolves_settle: "evolves s (settle p out e s)"
proof (cases "pending s p")
  case False
  then show ?thesis
    by (auto simp: settle_idle evolves_def sameClosure_def split: option.splits await_point.splits)
next
  case True
  let ?a = "attempts s ! p"
  obtain s' pt where r: "resume p ?a out e s = (s', pt)"
    by (cases "resume p ?a out e s")
  from True have p: "p < length (attempts s)" and pend: "\<forall>b. point ?a \<noteq> Returned b"
    by (auto simp: pending_def split: await_point.splits)
  have "sameClosure (attempts s ! q) ((attempts s)[p := ?a\<lparr>point := pt\<rparr>] ! q)"
    if "q < length (attempts s)" for q
    using that pend by (cases "q = p") (auto simp: sameClosure_def split: await_point.splits)
  moreover have "callsOf q (settle p out e s) = callsOf q s"
    if "\<not> pending s q" for q
  proof -
    from that True have "q \<noteq> p" by auto
    with callsOf_emitted [OF resume_calls(1) [OF r], of q] show ?thesis
      by (simp add: settle_pending [OF True r] callsOf_def)
  qed
  ultimately show ?thesis
    using resume_frame(2,3,9) [OF r]
    by (simp add: settle_pending [OF True r] evolves_def split: option.splits)
qed

lemma runFinally_cases:
  "runFinally p s = s
   \<or> (p < length (attempts s) \<and> \<not> pending s p
      \<and> runFinally p s
            = s\<lparr>inFlightReconnect :=
                   (case inFlightReconnect s of
                      None \<Rightarrow> None
                    | Some g \<Rightarrow> if promise g = p then None else Some g),
                 attempts := (attempts s)[p := (attempts s ! p)\<lparr>finallyPending := False\<rparr>]\<rparr>)"
  by (auto simp: runFinally_def Let_def split: option.splits)

lemma callsAgree_finallyPending [simp]:
  "callsAgree (a\<lparr>finallyPending := b\<rparr>) cs = callsAgree a cs"
  by (simp add: callsAgree_def expectedRefresh_def cong: await_point.case_cong)

lemma invariant_runFinally:
  assumes "invariant s"
  shows "invariant (runFinally p s)"
proof -
  from runFinally_cases [of p s] show ?thesis
  proof (elim disjE conjE)
    assume "runFinally p s = s"
    with assms show ?thesis by simp
  next
    assume p: "p < length (attempts s)"
      and eq: "runFinally p s
            = s\<lparr>inFlightReconnect :=
                   (case inFlightReconnect s of
                      None \<Rightarrow> None
                    | Some g \<Rightarrow> if promise g = p then None else Some g),
                 attempts := (attempts s)[p := (attempts s ! p)\<lparr>finallyPending := False\<rparr>]\<rparr>"
    let ?r = "runFinally p s"
    have co: "callsOf q ?r = callsOf q s" for q
      by (simp add: eq callsOf_def)
    have same: "at_sequence (attempts ?r ! q) = at_sequence (attempts s ! q)
       \<and> targetKey (attempts ?r ! q) = targetKey (attempts s ! q)
       \<and> at_workspaceId (attempts ?r ! q) = at_workspaceId (attempts s ! q)
       \<and> at_threadId (attempts ?r ! q) = at_threadId (attempts s ! q)
       \<and> callsAgree (attempts ?r ! q) cs = callsAgree (attempts s ! q) cs"
      if "q < length (attempts s)" for q cs
      using that by (cases "q = p") (simp_all add: eq)
    have len: "length (attempts ?r) = length (attempts s)" by (simp add: eq)
    have each: "at_sequence (attempts ?r ! q) \<le> reconnectSequence ?r
        \<and> targetKey (attempts ?r ! q)
            = keyForThread (at_workspaceId (attempts ?r ! q)) (at_threadId (attempts ?r ! q))
        \<and> callsAgree (attempts ?r ! q) (callsOf q ?r)" if "q < length (attempts ?r)" for q
    proof -
      from that len have q: "q < length (attempts s)" by simp
      with assms have "at_sequence (attempts s ! q) \<le> reconnectSequence s"
        "targetKey (attempts s ! q)
           = keyForThread (at_workspaceId (attempts s ! q)) (at_threadId (attempts s ! q))"
        "callsAgree (attempts s ! q) (callsOf q s)"
        by (simp_all add: invariant_def)
      moreover have "reconnectSequence ?r = reconnectSequence s" by (simp add: eq)
      ultimately show ?thesis
        using same [OF q] co [of q] by simp
    qed
    have pos: "\<forall>x \<in> set (ignoreDetachedEventsUntil ?r). 0 < snd x"
      using assms by (simp add: eq invariant_def)
    have tags: "\<forall>x \<in> set (calls ?r). \<forall>q. fst x = Some q \<longrightarrow> q < length (attempts ?r)"
      using assms by (simp add: eq invariant_def)
    have ord: "at_sequence (attempts ?r ! q') < at_sequence (attempts ?r ! q)"
      if "q < length (attempts ?r)" "q' < q" for q q'
    proof -
      from that len have "q < length (attempts s)" "q' < length (attempts s)" by simp_all
      with assms that(2) same [of q] same [of q'] show ?thesis
        by (simp add: invariant_def)
    qed
    have infl: "\<forall>f. inFlightReconnect ?r = Some f \<longrightarrow>
            promise f < length (attempts ?r)
            \<and> key f = targetKey (attempts ?r ! promise f)
            \<and> sequence f = at_sequence (attempts ?r ! promise f)"
    proof (intro allI impI)
      fix f
      assume "inFlightReconnect ?r = Some f"
      then have "inFlightReconnect s = Some f"
        by (simp add: eq split: option.splits if_splits)
      with assms have "promise f < length (attempts s)"
        "key f = targetKey (attempts s ! promise f)"
        "sequence f = at_sequence (attempts s ! promise f)"
        by (simp_all add: invariant_def)
      with same [of "promise f"] len
      show "promise f < length (attempts ?r)
            \<and> key f = targetKey (attempts ?r ! promise f)
            \<and> sequence f = at_sequence (attempts ?r ! promise f)"
        by simp
    qed
    from each pos tags ord infl show ?thesis
      unfolding invariant_def by blast
  qed
qed

lemma evolves_runFinally: "evolves s (runFinally p s)"
proof -
  from runFinally_cases [of p s] show ?thesis
  proof (elim disjE conjE)
    assume "runFinally p s = s"
    then show ?thesis
      by (auto simp: evolves_def sameClosure_def split: option.splits await_point.splits)
  next
    assume p: "p < length (attempts s)" and np: "\<not> pending s p"
      and eq: "runFinally p s
            = s\<lparr>inFlightReconnect :=
                   (case inFlightReconnect s of
                      None \<Rightarrow> None
                    | Some g \<Rightarrow> if promise g = p then None else Some g),
                 attempts := (attempts s)[p := (attempts s ! p)\<lparr>finallyPending := False\<rparr>]\<rparr>"
    have sc: "sameClosure (attempts s ! q)
            ((attempts s)[p := (attempts s ! p)\<lparr>finallyPending := False\<rparr>] ! q)"
      if "q < length (attempts s)" for q
      using that by (cases "q = p") (auto simp: sameClosure_def split: await_point.splits)
    have np': "\<not> pending (runFinally p s) p"
      using np p by (simp add: eq pending_def)
    show ?thesis
      unfolding evolves_def
    proof (intro conjI)
      show "case inFlightReconnect s of
            None \<Rightarrow> True
          | Some g \<Rightarrow>
              if reconnectSequence (runFinally p s) = reconnectSequence s
                 \<and> pending (runFinally p s) (promise g)
              then inFlightReconnect (runFinally p s) = Some g else True"
        using np' by (auto simp: eq split: option.splits)
    qed (simp_all add: eq sc callsOf_def)
  qed
qed


subsection \<open>Handlers\<close>

lemma sameClosure_refl [simp]: "sameClosure a a"
  by (simp add: sameClosure_def split: await_point.splits)

lemma callsOf_handler:
  "calls s' = calls s \<or> (\<exists>c. calls s' = calls s @ [(None, c)]) \<Longrightarrow> callsOf q s' = callsOf q s"
  by (auto simp: callsOf_def)

lemma evolves_same:
  assumes "attempts s' = attempts s" "reconnectSequence s' = reconnectSequence s"
    "inFlightReconnect s' = inFlightReconnect s"
    "callerPromises s' = callerPromises s \<or> (\<exists>r. callerPromises s' = callerPromises s @ [r])"
    "calls s' = calls s \<or> (\<exists>c. calls s' = calls s @ [(None, c)])"
  shows "evolves s s'"
  using assms(1-4) callsOf_handler [OF assms(5)]
  by (auto simp: evolves_def split: option.splits)

lemma evolves_reconnectLive: "evolves s (fst (reconnectLive w t opts e s))"
proof -
  from reconnectLive_cases [of w t opts e s] show ?thesis
  proof (elim disjE exE conjE)
    assume "reconnectLive w t opts e s
        = ((reconcileDisconnectedState s)\<lparr>callerPromises := callerPromises s @ [ReturnFalse]\<rparr>,
            ReturnFalse)"
    then show ?thesis
      by (simp add: reconcile_eq evolves_same)
  next
    fix f
    assume "reconnectLive w t opts e s
        = (s\<lparr>desiredSubscriptionKey := Some (keyForThread w t),
             callerPromises := callerPromises s @ [ReturnPromise (promise f)]\<rparr>,
           ReturnPromise (promise f))"
    then show ?thesis
      by (simp add: evolves_same)
  next
    fix s2 s3 a
    assume "reconnectSequence s2 = reconnectSequence s" and cl2: "calls s2 = calls s"
      and st: "startAttempt (length (attempts s)) w t opts e s2 = (s3, a)"
      and eq: "reconnectLive w t opts e s
         = (s3\<lparr>inFlightReconnect :=
                  Some \<lparr> key = keyForThread w t, sequence = Suc (reconnectSequence s),
                         promise = length (attempts s) \<rparr>,
                attempts := attempts s @ [a],
                callerPromises := callerPromises s @ [ReturnPromise (length (attempts s))]\<rparr>,
            ReturnPromise (length (attempts s)))"
    moreover have "calls s3 = calls s @ map (Pair (Some (length (attempts s)))) (emitted s2 s3)"
      using startAttempt_calls(1) [OF st] cl2 by simp
    from callsOf_emitted [OF this]
    have "callsOf q s3 = callsOf q s" if "q < length (attempts s)" for q
      using that by simp
    ultimately show ?thesis
      using startAttempt_frame(2) [OF st]
      by (simp add: evolves_def nth_append callsOf_def split: option.splits)
  qed
qed

lemma evolves_left:
  assumes "attempts x = attempts s" "reconnectSequence x = reconnectSequence s"
    "inFlightReconnect x = inFlightReconnect s" "evolves x s'"
    "callerPromises x = callerPromises s"
    "calls x = calls s \<or> (\<exists>c. calls x = calls s @ [(None, c)])"
  shows "evolves s s'"
proof -
  have "pending x q = pending s q" for q
    using assms(1) by (simp add: pending_def)
  with assms(1-5) callsOf_handler [OF assms(6)] show ?thesis
    unfolding evolves_def by (auto split: option.splits)
qed

lemma evolves_via_reconnectLive:
  "attempts x = attempts s \<Longrightarrow> reconnectSequence x = reconnectSequence s \<Longrightarrow>
   inFlightReconnect x = inFlightReconnect s \<Longrightarrow>
   callerPromises x = callerPromises s \<Longrightarrow>
   calls x = calls s \<or> (\<exists>c. calls x = calls s @ [(None, c)]) \<Longrightarrow>
   evolves s (fst (reconnectLive w t opts e x))"
  using evolves_left [OF _ _ _ evolves_reconnectLive] .

lemma invariant_pre:
  assumes "invariant s" "attempts x = attempts s"
    "reconnectSequence s \<le> reconnectSequence x"
    "set (ignoreDetachedEventsUntil x) \<subseteq> set (ignoreDetachedEventsUntil s)"
    "calls x = calls s \<or> (\<exists>c. calls x = calls s @ [(None, c)])"
    "inFlightReconnect x = inFlightReconnect s \<or> inFlightReconnect x = None"
  shows "invariant x"
proof -
  from assms(5) obtain cs where "calls x = calls s @ map (Pair None) cs"
  proof
    assume "calls x = calls s"
    then have "calls x = calls s @ map (Pair None) []" by simp
    then show ?thesis by (rule that)
  next
    assume "\<exists>c. calls x = calls s @ [(None, c)]"
    then obtain c where "calls x = calls s @ map (Pair None) [c]" by auto
    then show ?thesis by (rule that)
  qed
  with assms(1-4) show ?thesis
    using assms(6) by (rule invariant_weaken)
qed

lemma invariant_via_reconnectLive:
  assumes "invariant s" "attempts x = attempts s"
    "reconnectSequence s \<le> reconnectSequence x"
    "set (ignoreDetachedEventsUntil x) \<subseteq> set (ignoreDetachedEventsUntil s)"
    "calls x = calls s \<or> (\<exists>c. calls x = calls s @ [(None, c)])"
    "inFlightReconnect x = inFlightReconnect s \<or> inFlightReconnect x = None"
  shows "invariant (fst (reconnectLive w t opts e x))"
  using invariant_reconnectLive [OF invariant_pre [OF assms]] .

lemma evolves_onDetached: "evolves s (onDetached w t e s)"
  unfolding onDetached_def Let_def reconcile_eq
  by (simp add: evolves_same evolves_via_reconnectLive)

lemma evolves_onAppServerEvent: "evolves s (onAppServerEvent ev e s)"
  unfolding onAppServerEvent_def setState_eq
  by (cases "rawMethod ev"; cases "activeWorkspace s"; cases "activeThreadId s")
     (simp_all add: evolves_same evolves_via_reconnectLive evolves_onDetached)

lemma evolves_selectionEffect: "evolves s (selectionEffect e s)"
proof -
  obtain nk where nk:
    "(case (activeWorkspace s, activeThreadId s) of
        (Some ws, Some thread) \<Rightarrow>
          if backendMode s = ''remote'' \<and> ws_id ws \<noteq> [] \<and> thread \<noteq> []
          then Some (keyForThread (ws_id ws) thread) else None
      | _ \<Rightarrow> None) = nk"
    by simp
  show ?thesis
    unfolding selectionEffect_def nk Let_def reconcile_eq unsubscribeByKey_eq truthy_def
    by (cases nk; cases "activeSubscriptionKey s"; cases "splitKey (the nk)";
        cases "splitKey (the (activeSubscriptionKey s))")
       (simp_all add: evolves_same evolves_via_reconnectLive)
qed

lemma evolves_render: "evolves s (render mode ws thread rw e s)"
  unfolding render_def Let_def
  by (simp add: evolves_same evolves_left [OF _ _ _ evolves_selectionEffect])

lemma evolves_reconnectActiveThread: "evolves s (reconnectActiveThread e s)"
  unfolding reconnectActiveThread_def
  by (cases "activeWorkspace s"; cases "activeThreadId s")
     (simp_all add: evolves_same evolves_via_reconnectLive)

lemma evolves_handleBlur: "evolves s (handleBlur s)"
  unfolding handleBlur_def Let_def reconcile_eq unsubscribeByKey_eq
  by (cases "activeSubscriptionKey s"; cases "splitKey (the (activeSubscriptionKey s))")
     (simp_all add: evolves_def callsOf_def split: option.splits)

lemma evolves_cleanup: "evolves s (cleanup s)"
  unfolding cleanup_def Let_def unsubscribeByKey_eq
  by (cases "activeSubscriptionKey s"; cases "splitKey (the (activeSubscriptionKey s))")
     (simp_all add: evolves_same)

lemma evolves_step: "evolves s (step i s)"
proof (cases i)
  case (Pair e inp)
  then show ?thesis
    by (cases inp)
       (simp_all add: evolves_reconnectLive evolves_settle evolves_runFinally
          evolves_onAppServerEvent handleFocus_def handleVisibilityChange_def
          evolves_reconnectActiveThread evolves_handleBlur evolves_render evolves_cleanup
          evolves_same)
qed


lemma invariant_onDetached:
  assumes inv: "invariant s"
  shows "invariant (onDetached w t e s)"
  unfolding onDetached_def Let_def reconcile_eq
  using set_delete_subset [of "keyForThread w t" "ignoreDetachedEventsUntil s"]
  by (simp add: invariant_pre [OF inv] invariant_via_reconnectLive [OF inv])

lemma invariant_onAppServerEvent:
  assumes inv: "invariant s"
  shows "invariant (onAppServerEvent ev e s)"
  unfolding onAppServerEvent_def setState_eq
  by (cases "rawMethod ev"; cases "activeWorkspace s"; cases "activeThreadId s")
     (simp_all add: inv invariant_pre [OF inv] invariant_via_reconnectLive [OF inv]
        invariant_onDetached [OF inv])

lemma invariant_selectionEffect:
  assumes inv: "invariant s"
  shows "invariant (selectionEffect e s)"
proof -
  obtain nk where nk:
    "(case (activeWorkspace s, activeThreadId s) of
        (Some ws, Some thread) \<Rightarrow>
          if backendMode s = ''remote'' \<and> ws_id ws \<noteq> [] \<and> thread \<noteq> []
          then Some (keyForThread (ws_id ws) thread) else None
      | _ \<Rightarrow> None) = nk"
    by simp
  show ?thesis
    unfolding selectionEffect_def nk Let_def reconcile_eq unsubscribeByKey_eq truthy_def
    by (cases nk; cases "activeSubscriptionKey s"; cases "splitKey (the nk)";
        cases "splitKey (the (activeSubscriptionKey s))")
       (simp_all add: inv invariant_pre [OF inv] invariant_via_reconnectLive [OF inv])
qed

lemma invariant_render:
  assumes inv: "invariant s"
  shows "invariant (render mode ws thread rw e s)"
proof -
  have "invariant (s\<lparr>backendMode := mode, activeWorkspace := ws, activeThreadId := thread,
                 reconnectWorkspace := rw\<rparr>)"
    by (rule invariant_pre [OF inv]) simp_all
  then show ?thesis
    unfolding render_def Let_def by (simp add: invariant_selectionEffect)
qed

lemma invariant_reconnectActiveThread:
  assumes inv: "invariant s"
  shows "invariant (reconnectActiveThread e s)"
  unfolding reconnectActiveThread_def
  by (cases "activeWorkspace s"; cases "activeThreadId s")
     (simp_all add: inv invariant_reconnectLive [OF inv])

lemma invariant_handleBlur:
  assumes inv: "invariant s"
  shows "invariant (handleBlur s)"
  unfolding handleBlur_def Let_def reconcile_eq unsubscribeByKey_eq
  by (cases "activeSubscriptionKey s"; cases "splitKey (the (activeSubscriptionKey s))")
     (simp_all add: invariant_pre [OF inv])

lemma invariant_cleanup:
  assumes inv: "invariant s"
  shows "invariant (cleanup s)"
  unfolding cleanup_def Let_def unsubscribeByKey_eq
  by (cases "activeSubscriptionKey s"; cases "splitKey (the (activeSubscriptionKey s))")
     (simp_all add: invariant_pre [OF inv])

lemma invariant_step: "invariant s \<Longrightarrow> invariant (step i s)"
proof (cases i)
  case (Pair e inp)
  assume "invariant s"
  with Pair show ?thesis
    by (cases inp)
       (simp_all add: invariant_reconnectLive invariant_settle invariant_runFinally
          invariant_onAppServerEvent handleFocus_def handleVisibilityChange_def
          invariant_reconnectActiveThread invariant_handleBlur invariant_render invariant_cleanup)
qed

lemma invariant_run: "invariant s \<Longrightarrow> invariant (run is s)"
  by (induction "is" arbitrary: s) (simp_all add: invariant_step)

lemma invariant_mount: "invariant (mount mode ws thread rw e)"
  by (simp add: mount_def invariant_selectionEffect invariant_initial)

subsection \<open>Runs\<close>


lemma sameClosure_trans: "sameClosure a b \<Longrightarrow> sameClosure b c \<Longrightarrow> sameClosure a c"
  by (auto simp: sameClosure_def split: await_point.splits)

lemma run_append: "run (is @ js) s = run js (run is s)"
  by (induction "is" arbitrary: s) simp_all

lemma reconnectSequence_run: "reconnectSequence s \<le> reconnectSequence (run is s)"
proof (induction "is" arbitrary: s)
  case Nil
  show ?case by simp
next
  case (Cons i "is")
  have "reconnectSequence s \<le> reconnectSequence (step i s)"
    using evolves_step [of s i] by (simp add: evolves_def)
  also have "\<dots> \<le> reconnectSequence (run is (step i s))" by (rule Cons.IH)
  finally show ?case by simp
qed

lemma attempts_run:
  "length (attempts s) \<le> length (attempts (run is s))
   \<and> (\<forall>q < length (attempts s). sameClosure (attempts s ! q) (attempts (run is s) ! q))"
proof (induction "is" arbitrary: s)
  case Nil
  show ?case by simp
next
  case (Cons i "is")
  have st: "length (attempts s) \<le> length (attempts (step i s))"
    "\<forall>q < length (attempts s). sameClosure (attempts s ! q) (attempts (step i s) ! q)"
    using evolves_step [of s i] by (simp_all add: evolves_def)
  from Cons.IH [of "step i s"] st show ?case
    by (auto intro: sameClosure_trans)
qed

lemma pending_run:
  assumes "pending (run is s) p" and "p < length (attempts s)"
  shows "pending s p"
proof (rule ccontr)
  assume "\<not> pending s p"
  with assms(2) obtain b where "point (attempts s ! p) = Returned b"
    by (auto simp: pending_def split: await_point.splits)
  moreover have "sameClosure (attempts s ! p) (attempts (run is s) ! p)"
    using attempts_run [of s "is"] assms(2) by simp
  ultimately have "point (attempts (run is s) ! p) = Returned b"
    by (simp add: sameClosure_def)
  with assms(1) show False by (simp add: pending_def)
qed

lemma inFlight_run:
  assumes "inFlightReconnect s = Some f" and "promise f < length (attempts s)"
    and "pending (run is s) (promise f)"
    and "reconnectSequence (run is s) = reconnectSequence s"
  shows "inFlightReconnect (run is s) = Some f"
  using assms
proof (induction "is" arbitrary: s)
  case Nil
  then show ?case by simp
next
  case (Cons i "is")
  let ?s' = "step i s"
  have ev: "evolves s ?s'" by (rule evolves_step)
  have "reconnectSequence s \<le> reconnectSequence ?s'"
    using ev by (simp add: evolves_def)
  moreover have "reconnectSequence ?s' \<le> reconnectSequence (run is ?s')"
    by (rule reconnectSequence_run)
  ultimately have seq: "reconnectSequence ?s' = reconnectSequence s"
    "reconnectSequence (run is ?s') = reconnectSequence ?s'"
    using Cons.prems(4) by simp_all
  have len: "promise f < length (attempts ?s')"
    using ev Cons.prems(2) by (simp add: evolves_def)
  have pend: "pending ?s' (promise f)"
    using pending_run [of "is" ?s' "promise f"] Cons.prems(3) len by simp
  have "inFlightReconnect ?s' = Some f"
    using ev Cons.prems(1) seq(1) pend by (simp add: evolves_def)
  from Cons.IH [OF this len] Cons.prems(3) seq(2) show ?case by simp
qed

lemma callerPromises_run: "prefix (callerPromises s) (callerPromises (run is s))"
proof (induction "is" arbitrary: s)
  case Nil
  show ?case by simp
next
  case (Cons i "is")
  have "prefix (callerPromises s) (callerPromises (step i s))"
    using evolves_step [of s i] by (simp add: evolves_def)
  with Cons.IH [of "step i s"] show ?case
    by (auto simp: prefix_def)
qed

lemma callerPromises_kept:
  assumes "c < length (callerPromises s)"
  shows "callerPromises (run is s) ! c = callerPromises s ! c"
    and "c < length (callerPromises (run is s))"
  using callerPromises_run [of s "is"] assms by (auto simp: prefix_def nth_append)

lemma callsOf_returned_run:
  assumes "p < length (attempts s)" "\<not> pending s p"
  shows "callsOf p (run is s) = callsOf p s"
  using assms
proof (induction "is" arbitrary: s)
  case Nil
  show ?case by simp
next
  case (Cons i "is")
  have ev: "evolves s (step i s)" by (rule evolves_step)
  with Cons.prems have 1: "callsOf p (step i s) = callsOf p s"
    and len: "p < length (attempts (step i s))"
    and sc: "sameClosure (attempts s ! p) (attempts (step i s) ! p)"
    by (simp_all add: evolves_def)
  from Cons.prems obtain b where "point (attempts s ! p) = Returned b"
    by (auto simp: pending_def split: await_point.splits)
  with sc have "\<not> pending (step i s) p"
    by (simp add: sameClosure_def pending_def)
  from Cons.IH [OF len this] 1 show ?case by simp
qed

lemma settle_desired:
  "desiredSubscriptionKey (settle p out e s) = desiredSubscriptionKey s"
proof (cases "pending s p")
  case False
  then show ?thesis by (simp add: settle_idle)
next
  case True
  obtain s' pt where r: "resume p (attempts s ! p) out e s = (s', pt)"
    by (cases "resume p (attempts s ! p) out e s")
  from resume_frame(4) [OF r] show ?thesis
    by (simp add: settle_pending [OF True r])
qed

lemma quiet_step:
  assumes "quiet i" and "desiredSubscriptionKey s = None"
  shows "desiredSubscriptionKey (step i s) = None"
proof (cases i)
  case (Pair e inp)
  have fin: "desiredSubscriptionKey (runFinally p s) = desiredSubscriptionKey s" for p
    using runFinally_cases [of p s] by auto
  have blur: "desiredSubscriptionKey (handleBlur s) = None"
    unfolding handleBlur_def Let_def reconcile_eq unsubscribeByKey_eq
    by (simp split: option.splits)
  have unm: "desiredSubscriptionKey (cleanup s) = None"
    unfolding cleanup_def Let_def unsubscribeByKey_eq
    by (simp split: option.splits)
  from assms Pair show ?thesis
    by (cases inp)
       (simp_all add: settle_desired fin blur unm handleFocus_def handleVisibilityChange_def)
qed

lemma quiet_run:
  assumes "list_all quiet is" and "desiredSubscriptionKey s = None"
  shows "desiredSubscriptionKey (run is s) = None"
  using assms
proof (induction "is" arbitrary: s)
  case Nil
  then show ?case by simp
next
  case (Cons i "is")
  from Cons.prems have "quiet i" "list_all quiet is" by simp_all
  with Cons.IH [of "step i s"] quiet_step [of i s] Cons.prems(2) show ?case by simp
qed

text \<open>
  C8: the sequence number never decreases. Every step leaves it as it is or adds one to
  it, so that no run lowers it; its two writes, in \<^verbatim>\<open>handleBlur\<close> and at the start of an
  attempt, each add one to the previous value.
\<close>

theorem reconnectSequence_never_decreases:
  "(reconnectSequence (step i s) = reconnectSequence s
      \<or> reconnectSequence (step i s) = reconnectSequence s + 1)
   \<and> reconnectSequence s \<le> reconnectSequence (run is s)
   \<and> reconnectSequence (handleBlur s) = reconnectSequence s + 1
   \<and> reconnectSequence (fst (startAttempt p w t opts e s)) = reconnectSequence s + 1"
proof -
  have "reconnectSequence s \<le> reconnectSequence (step i s)"
    "reconnectSequence (step i s) \<le> Suc (reconnectSequence s)"
    using evolves_step [of s i] by (simp_all add: evolves_def)
  then have "reconnectSequence (step i s) = reconnectSequence s
      \<or> reconnectSequence (step i s) = reconnectSequence s + 1"
    by arith
  moreover have "reconnectSequence (handleBlur s) = reconnectSequence s + 1"
    unfolding handleBlur_def Let_def reconcile_eq unsubscribeByKey_eq
    by (simp split: option.splits)
  moreover have "reconnectSequence (fst (startAttempt p w t opts e s)) = reconnectSequence s + 1"
    using startAttempt_frame(2) [of p w t opts e s] by (cases "startAttempt p w t opts e s") simp
  ultimately show ?thesis
    using reconnectSequence_run [of s "is"] by simp
qed

theorem reconnectSequence_never_decreases_witness:
  "reconnectSequence (run [(e0, Call ''ws-1'' ''thread-1'' None), (e0, WindowBlur)]
       (initial ''remote'' (Some ws1) None False)) = 2"
proof -
  let ?s = "initial ''remote'' (Some ws1) None False"
  let ?s1 = "step (e0, Call ''ws-1'' ''thread-1'' None) ?s"
  have 1: "reconnectSequence ?s1 = 1"
    by (simp add: initial_def reconnectLive_def asyncReturn_def startAttempt_def Let_def ws1_def
          keyForThread_def body_defs isConnected_def)
  have "reconnectSequence (handleBlur ?s1) = reconnectSequence ?s1 + 1"
    using reconnectSequence_never_decreases [of "(e0, WindowBlur)" ?s1 "[]" 0 "[]" "[]" None e0]
    by simp
  with 1 show ?thesis by simp
qed

section \<open>The sample states satisfy the invariant\<close>

lemma invariant_subscribing1: "invariant subscribing1"
  unfolding subscribing1_def idle1_def
  by (intro invariant_reconnectLive invariant_initial)

lemma invariant_refreshing1: "invariant refreshing1"
  unfolding refreshing1_def idle1_def
  by (intro invariant_reconnectLive invariant_initial)

lemma invariant_reconnecting1: "invariant reconnecting1"
  unfolding reconnecting1_def
  by (intro invariant_reconnectLive invariant_initial)

lemma invariant_resubscribing1: "invariant resubscribing1"
  unfolding resubscribing1_def selected1_def
  by (intro invariant_run invariant_initial)

lemma resubscribing1_eq:
  "resubscribing1 =
     \<lparr> backendMode = ''remote'',
       activeWorkspace = Some \<lparr> ws_id = ''ws-1'', connected = True \<rparr>,
       activeThreadId = Some ''thread-1'', reconnectWorkspace = False,
       connectionState = Polling,
       activeSubscriptionKey = Some ''ws-1:thread-1'',
       desiredSubscriptionKey = Some ''ws-1:thread-1'',
       ignoreDetachedEventsUntil = [(''ws-1:thread-1'', 11000)],
       inFlightReconnect = Some \<lparr> key = ''ws-1:thread-1'', sequence = 2, promise = 1 \<rparr>,
       reconnectSequence = 2,
       attempts =
         [\<lparr> targetKey = ''ws-1:thread-1'', at_workspaceId = ''ws-1'',
             at_threadId = ''thread-1'', runResume = Some False,
             at_sequence = 1, point = Returned True, finallyPending = False \<rparr>,
          \<lparr> targetKey = ''ws-1:thread-1'', at_workspaceId = ''ws-1'',
             at_threadId = ''thread-1'', runResume = Some False,
             at_sequence = 2, point = AtUnsubscribeBeforeReattach, finallyPending = True \<rparr>],
       calls =
         [(Some 0, ThreadLiveSubscribe ''ws-1'' ''thread-1''),
          (Some 1, ThreadLiveUnsubscribe ''ws-1'' ''thread-1'')],
       callerPromises = [ReturnPromise 0, ReturnPromise 1] \<rparr>"
  by code_simp

section \<open>Blur\<close>

text \<open>
  C6, as stated, fails: \<^verbatim>\<open>handleBlur\<close> returns before it reconciles the connection state
  when there is no active key. After a mount in remote mode and a heartbeat for the
  selected thread, no key is active and the state is \<open>Live\<close>; a blur leaves it \<open>Live\<close>,
  where the resting state is \<open>Polling\<close>.
\<close>

theorem blur_without_active_key_counterexample:
  "activeSubscriptionKey
     (run [(e0, AppServerEvent heartbeat1)] (mount ''remote'' (Some ws1) (Some ''thread-1'') False e0))
     = None \<and>
   connectionState
     (run [(e0, AppServerEvent heartbeat1)] (mount ''remote'' (Some ws1) (Some ''thread-1'') False e0))
     = Live \<and>
   connectionState
     (run [(e0, AppServerEvent heartbeat1), (e0, WindowBlur)]
        (mount ''remote'' (Some ws1) (Some ''thread-1'') False e0))
     = Live \<and>
   connectionState
     (reconcileDisconnectedState
        (run [(e0, AppServerEvent heartbeat1), (e0, WindowBlur)]
           (mount ''remote'' (Some ws1) (Some ''thread-1'') False e0)))
     = Polling"
  by code_simp

text \<open>
  C6, amended: on every blur, and on every visibility change to hidden, the sequence
  number is incremented and the desired key is cleared. If there is an active key, it
  is cleared, an unsubscribe is issued for the two ids that \<^verbatim>\<open>splitKey\<close> reads from it
  (the ids it was formed from, when the workspace id has no colon), and the connection
  state is reconciled to the resting state. If there is no active key, nothing else
  changes: the connection state is left as it is and no call is made.
\<close>

theorem blur_handling:
  "reconnectSequence (handleBlur s) = reconnectSequence s + 1 \<and>
   desiredSubscriptionKey (handleBlur s) = None \<and>
   (activeSubscriptionKey s = None \<longrightarrow>
      handleBlur s = s\<lparr>reconnectSequence := reconnectSequence s + 1,
                        desiredSubscriptionKey := None\<rparr>) \<and>
   (\<forall>k. activeSubscriptionKey s = Some k \<and> k \<noteq> [] \<longrightarrow>
      handleBlur s =
        s\<lparr>reconnectSequence := reconnectSequence s + 1,
           desiredSubscriptionKey := None,
           activeSubscriptionKey := None,
           calls := calls s @
             (case splitKey k of
                None \<Rightarrow> []
              | Some parsed \<Rightarrow>
                  [(None, ThreadLiveUnsubscribe (workspaceId parsed) (threadId parsed))]),
           connectionState := initialConnectionState (backendMode s) (activeWorkspace s)\<rparr>) \<and>
   (\<forall>w t. w \<noteq> [] \<and> t \<noteq> [] \<and> CHR '':'' \<notin> set w
          \<and> activeSubscriptionKey s = Some (keyForThread w t) \<longrightarrow>
      calls (handleBlur s) = calls s @ [(None, ThreadLiveUnsubscribe w t)]) \<and>
   (\<not> visible e \<longrightarrow> handleVisibilityChange e s = handleBlur s)"
proof -
  have key: "keyForThread w t \<noteq> []" for w t
    by (simp add: keyForThread_def)
  show ?thesis
    unfolding handleBlur_def handleVisibilityChange_def Let_def reconcile_eq unsubscribeByKey_eq
    by (cases "activeSubscriptionKey s")
       (auto simp: splitKey_keyForThread key)
qed

theorem blur_handling_witness:
  "handleBlur (initial ''remote'' (Some ws1) None False
                 \<lparr>activeSubscriptionKey := Some ''ws-1:thread-1'', connectionState := Live\<rparr>)
     = initial ''remote'' (Some ws1) None False
         \<lparr>reconnectSequence := 1, connectionState := Polling,
          calls := [(None, ThreadLiveUnsubscribe ''ws-1'' ''thread-1'')]\<rparr> \<and>
   handleBlur (initial ''remote'' (Some ws1) None False \<lparr>connectionState := Live\<rparr>)
     = initial ''remote'' (Some ws1) None False \<lparr>reconnectSequence := 1, connectionState := Live\<rparr>"
  using blur_handling
    [of "initial ''remote'' (Some ws1) None False
           \<lparr>activeSubscriptionKey := Some ''ws-1:thread-1'', connectionState := Live\<rparr>" e0]
    blur_handling [of "initial ''remote'' (Some ws1) None False \<lparr>connectionState := Live\<rparr>" e0]
  by (simp add: initial_def splitKey_def initialConnectionState_def isConnected_def ws1_def)

section \<open>Detach notifications\<close>

lemma window_positive:
  assumes "invariant s" and "map_of (ignoreDetachedEventsUntil s) k = Some u"
  shows "0 < u"
proof -
  from assms(2) have "(k, u) \<in> set (ignoreDetachedEventsUntil s)"
    by (rule map_of_SomeD)
  with assms(1) show ?thesis
    by (auto simp: invariant_def)
qed

text \<open>
  C3: in a state that satisfies the invariant, take a \<^verbatim>\<open>thread/live_detached\<close> event of
  the active workspace whose thread id is the selected thread, and let \<open>K\<close> be their key.
  If the map of self-detach windows holds an entry for \<open>K\<close> whose expiry time is not in
  the past, the handler deletes the entry and does nothing else. If the entry is absent
  or expired, the handler deletes it, clears the active key, reconciles the connection
  state, and calls \<^verbatim>\<open>reconnectLive\<close> with \<^verbatim>\<open>runResume: true\<close> exactly when the document
  is visible and the window focused.
\<close>

theorem self_detach_suppression:
  assumes "invariant s"
    and "activeWorkspace s = Some ws" and "ws_id ws \<noteq> []"
    and "activeThreadId s = Some sel" and "sel \<noteq> []"
    and "workspace_id ev = ws_id ws"
    and "rawMethod ev = Some ''thread/live_detached''"
    and "extractThreadId ''thread/live_detached'' (params_of ev) = Some sel"
  shows "(\<forall>u. map_of (ignoreDetachedEventsUntil s) (keyForThread (ws_id ws) sel) = Some u
              \<and> now e \<le> u \<longrightarrow>
            onAppServerEvent ev e s =
              s\<lparr>ignoreDetachedEventsUntil :=
                   AList.delete (keyForThread (ws_id ws) sel) (ignoreDetachedEventsUntil s)\<rparr>)
       \<and> (map_of (ignoreDetachedEventsUntil s) (keyForThread (ws_id ws) sel) = None
            \<or> (\<exists>u. map_of (ignoreDetachedEventsUntil s) (keyForThread (ws_id ws) sel) = Some u
                    \<and> u < now e) \<longrightarrow>
            onAppServerEvent ev e s =
              (if visible e \<and> focused e
               then fst (reconnectLive (ws_id ws) sel (Some True) e
                      (s\<lparr>ignoreDetachedEventsUntil :=
                           AList.delete (keyForThread (ws_id ws) sel) (ignoreDetachedEventsUntil s),
                         activeSubscriptionKey := None,
                         connectionState :=
                           initialConnectionState (backendMode s) (activeWorkspace s)\<rparr>))
               else s\<lparr>ignoreDetachedEventsUntil :=
                         AList.delete (keyForThread (ws_id ws) sel) (ignoreDetachedEventsUntil s),
                       activeSubscriptionKey := None,
                       connectionState :=
                         initialConnectionState (backendMode s) (activeWorkspace s)\<rparr>))"
proof -
  let ?K = "keyForThread (ws_id ws) sel"
  have ev: "onAppServerEvent ev e s = onDetached (ws_id ws) sel e s"
    using assms(2-8) by (simp add: onAppServerEvent_def)
  show ?thesis
  proof (cases "map_of (ignoreDetachedEventsUntil s) ?K")
    case None
    then have "?K \<notin> fst ` set (ignoreDetachedEventsUntil s)"
      by (simp add: map_of_eq_None_iff)
    then have "AList.delete ?K (ignoreDetachedEventsUntil s) = ignoreDetachedEventsUntil s"
      by simp
    with None show ?thesis
      by (simp add: ev onDetached_def Let_def reconcile_eq)
  next
    case (Some u)
    with assms(1) have "0 < u" by (rule window_positive)
    with Some show ?thesis
      by (auto simp: ev onDetached_def Let_def reconcile_eq)
  qed
qed

theorem self_detach_suppression_witness:
  "invariant resubscribing1
   \<and> map_of (ignoreDetachedEventsUntil resubscribing1) ''ws-1:thread-1'' = Some 11000
   \<and> onAppServerEvent detached1 e0 resubscribing1
       = resubscribing1\<lparr>ignoreDetachedEventsUntil := []\<rparr>
   \<and> onAppServerEvent detached1 late resubscribing1
       = resubscribing1\<lparr>ignoreDetachedEventsUntil := [], activeSubscriptionKey := None,
                         connectionState := Polling\<rparr>"
proof -
  have x: "extractThreadId ''thread/live_detached'' (params_of detached1) = Some ''thread-1''"
    by code_simp
  have h: "activeWorkspace resubscribing1 = Some ws1" "ws_id ws1 \<noteq> []"
    "activeThreadId resubscribing1 = Some ''thread-1''" "''thread-1'' \<noteq> []"
    "workspace_id detached1 = ws_id ws1"
    "rawMethod detached1 = Some ''thread/live_detached''"
    by (simp_all add: resubscribing1_eq ws1_def detached1_def)
  have k: "keyForThread (ws_id ws1) ''thread-1'' = ''ws-1:thread-1''"
    by (simp add: keyForThread_def ws1_def)
  have m: "map_of (ignoreDetachedEventsUntil resubscribing1) ''ws-1:thread-1'' = Some 11000"
    by (simp add: resubscribing1_eq)
  have d: "AList.delete ''ws-1:thread-1'' (ignoreDetachedEventsUntil resubscribing1) = []"
    by (simp add: resubscribing1_eq)
  have r: "initialConnectionState (backendMode resubscribing1) (activeWorkspace resubscribing1)
      = Polling"
    by (simp add: resubscribing1_eq initialConnectionState_def isConnected_def)
  have e: "now e0 = 1000" "now late = 20000" "visible late" "\<not> focused late"
    by (simp_all add: e0_def late_def)
  from self_detach_suppression [OF invariant_resubscribing1 h x, of e0]
  have 1: "onAppServerEvent detached1 e0 resubscribing1
       = resubscribing1\<lparr>ignoreDetachedEventsUntil := []\<rparr>"
    by (simp add: k m d e)
  from self_detach_suppression [OF invariant_resubscribing1 h x, of late]
  have 2: "onAppServerEvent detached1 late resubscribing1
       = resubscribing1\<lparr>ignoreDetachedEventsUntil := [], activeSubscriptionKey := None,
                         connectionState := Polling\<rparr>"
    by (simp add: k m d e r)
  show ?thesis
    using invariant_resubscribing1 m 1 2 by blast
qed

section \<open>Attempts in flight\<close>

subsection \<open>Attempts are touched only when they settle\<close>

lemma attempt_kept_reconnectLive:
  assumes "q < length (attempts s)"
  shows "attempts (fst (reconnectLive w t opts e s)) ! q = attempts s ! q"
proof -
  from reconnectLive_cases [of w t opts e s] show ?thesis
  proof (elim disjE exE conjE)
    assume "reconnectLive w t opts e s
        = ((reconcileDisconnectedState s)\<lparr>callerPromises := callerPromises s @ [ReturnFalse]\<rparr>,
            ReturnFalse)"
    then show ?thesis by (simp add: reconcile_eq)
  next
    fix f
    assume "reconnectLive w t opts e s
        = (s\<lparr>desiredSubscriptionKey := Some (keyForThread w t),
             callerPromises := callerPromises s @ [ReturnPromise (promise f)]\<rparr>,
           ReturnPromise (promise f))"
    then show ?thesis by simp
  next
    fix s2 s3 a
    assume "reconnectLive w t opts e s
         = (s3\<lparr>inFlightReconnect :=
                  Some \<lparr> key = keyForThread w t, sequence = Suc (reconnectSequence s),
                         promise = length (attempts s) \<rparr>,
                attempts := attempts s @ [a],
                callerPromises := callerPromises s @ [ReturnPromise (length (attempts s))]\<rparr>,
            ReturnPromise (length (attempts s)))"
    with assms show ?thesis by (simp add: nth_append)
  qed
qed

lemma attempt_kept_via_reconnectLive:
  "attempts x = attempts s \<Longrightarrow> q < length (attempts s) \<Longrightarrow>
   attempts (fst (reconnectLive w t opts e x)) ! q = attempts s ! q"
  using attempt_kept_reconnectLive [of q x w t opts e] by simp

lemma attempt_kept_onDetached:
  "q < length (attempts s) \<Longrightarrow> attempts (onDetached w t e s) ! q = attempts s ! q"
  unfolding onDetached_def Let_def reconcile_eq
  by (simp add: attempt_kept_via_reconnectLive)

lemma attempt_kept_onAppServerEvent:
  "q < length (attempts s) \<Longrightarrow> attempts (onAppServerEvent ev e s) ! q = attempts s ! q"
  unfolding onAppServerEvent_def setState_eq
  by (cases "rawMethod ev"; cases "activeWorkspace s"; cases "activeThreadId s")
     (simp_all add: attempt_kept_via_reconnectLive attempt_kept_onDetached)

lemma attempt_kept_selectionEffect:
  assumes "q < length (attempts s)"
  shows "attempts (selectionEffect e s) ! q = attempts s ! q"
proof -
  obtain nk where nk:
    "(case (activeWorkspace s, activeThreadId s) of
        (Some ws, Some thread) \<Rightarrow>
          if backendMode s = ''remote'' \<and> ws_id ws \<noteq> [] \<and> thread \<noteq> []
          then Some (keyForThread (ws_id ws) thread) else None
      | _ \<Rightarrow> None) = nk"
    by simp
  show ?thesis
    unfolding selectionEffect_def nk Let_def reconcile_eq unsubscribeByKey_eq truthy_def
    using assms
    by (cases nk; cases "activeSubscriptionKey s"; cases "splitKey (the nk)")
       (simp_all add: attempt_kept_via_reconnectLive)
qed

lemma attempt_kept_render:
  assumes "q < length (attempts s)"
  shows "attempts (render mode ws thread rw e s) ! q = attempts s ! q"
  using assms
    attempt_kept_selectionEffect [of q "s\<lparr>backendMode := mode, activeWorkspace := ws,
      activeThreadId := thread, reconnectWorkspace := rw\<rparr>" e]
  unfolding render_def Let_def by simp

lemma attempt_kept_reconnectActiveThread:
  "q < length (attempts s) \<Longrightarrow> attempts (reconnectActiveThread e s) ! q = attempts s ! q"
  unfolding reconnectActiveThread_def
  by (cases "activeWorkspace s"; cases "activeThreadId s")
     (simp_all add: attempt_kept_reconnectLive)

lemma attempts_handleBlur: "attempts (handleBlur s) = attempts s"
  unfolding handleBlur_def Let_def reconcile_eq unsubscribeByKey_eq
  by (simp split: option.splits)

lemma attempts_cleanup: "attempts (cleanup s) = attempts s"
  unfolding cleanup_def Let_def unsubscribeByKey_eq
  by (simp split: option.splits)

lemma point_kept_runFinally:
  "q < length (attempts s) \<Longrightarrow> point (attempts (runFinally p s) ! q) = point (attempts s ! q)"
  using runFinally_cases [of p s]
  by (cases "q = p") auto

lemma point_kept_settle_other:
  assumes "q < length (attempts s)" and "q \<noteq> p"
  shows "attempts (settle p out e s) ! q = attempts s ! q"
proof (cases "pending s p")
  case False
  then show ?thesis by (simp add: settle_idle)
next
  case True
  obtain s' pt where r: "resume p (attempts s ! p) out e s = (s', pt)"
    by (cases "resume p (attempts s ! p) out e s")
  from assms show ?thesis
    by (simp add: settle_pending [OF True r])
qed

text \<open>Only the settling of its own awaited call moves an attempt.\<close>

lemma point_kept_step:
  assumes "q < length (attempts s)" and "\<forall>out. snd i \<noteq> Settle q out"
  shows "point (attempts (step i s) ! q) = point (attempts s ! q)"
proof (cases i)
  case (Pair e inp)
  with assms show ?thesis
    by (cases inp)
       (simp_all add: attempt_kept_reconnectLive point_kept_settle_other point_kept_runFinally
          attempt_kept_onAppServerEvent handleFocus_def handleVisibilityChange_def
          attempt_kept_reconnectActiveThread attempts_handleBlur attempt_kept_render
          attempts_cleanup)
qed

subsection \<open>Attempts overtaken by the sequence number\<close>

text \<open>What the settling of its awaited call does to an attempt that is no longer current.\<close>

lemma stale_settle:
  assumes "p < length (attempts s)"
    and "at_sequence (attempts s ! p) \<noteq> reconnectSequence s"
  shows "settle p out e s =
     (case point (attempts s ! p) of
        AtReconnectWorkspace \<Rightarrow>
          s\<lparr>attempts := (attempts s)[p := (attempts s ! p)\<lparr>point := Returned False\<rparr>]\<rparr>
      | AtRefreshThread \<Rightarrow>
          s\<lparr>attempts := (attempts s)[p := (attempts s ! p)\<lparr>point := Returned False\<rparr>]\<rparr>
      | AtUnsubscribeBeforeReattach \<Rightarrow>
          s\<lparr>activeSubscriptionKey := None,
             calls := calls s @ [(Some p, ThreadLiveSubscribe (at_workspaceId (attempts s ! p))
                                             (at_threadId (attempts s ! p)))],
             attempts := (attempts s)[p := (attempts s ! p)\<lparr>point := AtSubscribe\<rparr>]\<rparr>
      | AtSubscribe \<Rightarrow>
          if out = Fulfilled \<and> desiredSubscriptionKey s \<noteq> Some (targetKey (attempts s ! p))
          then s\<lparr>calls := calls s @ [(Some p, ThreadLiveUnsubscribe (at_workspaceId (attempts s ! p))
                                                   (at_threadId (attempts s ! p)))],
                 attempts := (attempts s)[p := (attempts s ! p)\<lparr>point := AtUnsubscribeStale\<rparr>]\<rparr>
          else s\<lparr>attempts := (attempts s)[p := (attempts s ! p)\<lparr>point := Returned False\<rparr>]\<rparr>
      | AtUnsubscribeStale \<Rightarrow>
          s\<lparr>attempts := (attempts s)[p := (attempts s ! p)\<lparr>point := Returned False\<rparr>]\<rparr>
      | Returned b \<Rightarrow> s)"
  using assms
  by (cases "point (attempts s ! p)"; cases out)
     (simp_all add: settle_def pending_def resume_def body_defs Let_def)

lemma stale_step:
  assumes "p < length (attempts s)"
    and "at_sequence (attempts s ! p) < reconnectSequence s"
    and "point (attempts s ! p) \<noteq> Returned True"
  shows "p < length (attempts (step i s))
       \<and> at_sequence (attempts (step i s) ! p) < reconnectSequence (step i s)
       \<and> point (attempts (step i s) ! p) \<noteq> Returned True"
proof -
  have ev: "evolves s (step i s)" by (rule evolves_step)
  with assms(1) have len: "p < length (attempts (step i s))"
    and sc: "sameClosure (attempts s ! p) (attempts (step i s) ! p)"
    and seq: "reconnectSequence s \<le> reconnectSequence (step i s)"
    by (simp_all add: evolves_def)
  from sc assms(2) seq have st: "at_sequence (attempts (step i s) ! p) < reconnectSequence (step i s)"
    by (simp add: sameClosure_def)
  have "point (attempts (step i s) ! p) \<noteq> Returned True"
  proof (cases "\<exists>out. snd i = Settle p out")
    case True
    then obtain e out where i: "i = (e, Settle p out)" by (cases i) auto
    from assms(2) have ne: "at_sequence (attempts s ! p) \<noteq> reconnectSequence s" by simp
    show ?thesis
      using assms(1,3)
      by (cases "point (attempts s ! p)") (simp_all add: i stale_settle [OF assms(1) ne])
  next
    case False
    then show ?thesis
      using point_kept_step [OF assms(1), of i] assms(3) by simp
  qed
  with len st show ?thesis by simp
qed

lemma stale_run:
  assumes "p < length (attempts s)"
    and "at_sequence (attempts s ! p) < reconnectSequence s"
    and "point (attempts s ! p) \<noteq> Returned True"
  shows "p < length (attempts (run is s))
       \<and> at_sequence (attempts (run is s) ! p) < reconnectSequence (run is s)
       \<and> point (attempts (run is s) ! p) \<noteq> Returned True"
  using assms
proof (induction "is" arbitrary: s)
  case Nil
  then show ?case by simp
next
  case (Cons i "is")
  from stale_step [OF Cons.prems, of i] Cons.IH [of "step i s"] show ?case by simp
qed

section \<open>Coalescing\<close>

lemma started_shape:
  assumes "reconnectLive w t opts e s = (s1, r)"
    and "length (attempts s1) = Suc (length (attempts s))"
  shows "\<exists>s2 s3 a. attempts s2 = attempts s \<and> calls s2 = calls s
          \<and> reconnectSequence s2 = reconnectSequence s
          \<and> ignoreDetachedEventsUntil s2 = ignoreDetachedEventsUntil s
          \<and> startAttempt (length (attempts s)) w t opts e s2 = (s3, a)
          \<and> s1 = s3\<lparr>inFlightReconnect :=
                       Some \<lparr> key = keyForThread w t, sequence = Suc (reconnectSequence s),
                              promise = length (attempts s) \<rparr>,
                     attempts := attempts s @ [a],
                     callerPromises :=
                       callerPromises s @ [ReturnPromise (length (attempts s))]\<rparr>
          \<and> r = ReturnPromise (length (attempts s))"
    and "backendMode s = ''remote''" "w \<noteq> []" "t \<noteq> []" "activeWorkspace s \<noteq> None"
proof -
  have nr: "\<not> (backendMode s \<noteq> ''remote'' \<or> w = [] \<or> t = [] \<or> activeWorkspace s = None)"
  proof
    assume "backendMode s \<noteq> ''remote'' \<or> w = [] \<or> t = [] \<or> activeWorkspace s = None"
    then have "reconnectLive w t opts e s
        = ((reconcileDisconnectedState s)\<lparr>callerPromises := callerPromises s @ [ReturnFalse]\<rparr>,
            ReturnFalse)"
      by (rule reconnectLive_rejected)
    with assms(1) have "attempts s1 = attempts (reconcileDisconnectedState s)" by auto
    with assms(2) show False by (simp add: reconcile_eq)
  qed
  then show "backendMode s = ''remote''" "w \<noteq> []" "t \<noteq> []" "activeWorkspace s \<noteq> None"
    by simp_all
  from reconnectLive_cases [of w t opts e s]
  show "\<exists>s2 s3 a. attempts s2 = attempts s \<and> calls s2 = calls s
          \<and> reconnectSequence s2 = reconnectSequence s
          \<and> ignoreDetachedEventsUntil s2 = ignoreDetachedEventsUntil s
          \<and> startAttempt (length (attempts s)) w t opts e s2 = (s3, a)
          \<and> s1 = s3\<lparr>inFlightReconnect :=
                       Some \<lparr> key = keyForThread w t, sequence = Suc (reconnectSequence s),
                              promise = length (attempts s) \<rparr>,
                     attempts := attempts s @ [a],
                     callerPromises :=
                       callerPromises s @ [ReturnPromise (length (attempts s))]\<rparr>
          \<and> r = ReturnPromise (length (attempts s))"
  proof (elim disjE exE conjE)
    assume "reconnectLive w t opts e s
        = ((reconcileDisconnectedState s)\<lparr>callerPromises := callerPromises s @ [ReturnFalse]\<rparr>,
            ReturnFalse)"
    with assms(1) have "attempts s1 = attempts (reconcileDisconnectedState s)" by auto
    with assms(2) show ?thesis by (simp add: reconcile_eq)
  next
    fix f
    assume "reconnectLive w t opts e s
        = (s\<lparr>desiredSubscriptionKey := Some (keyForThread w t),
             callerPromises := callerPromises s @ [ReturnPromise (promise f)]\<rparr>,
           ReturnPromise (promise f))"
    with assms(1) have "attempts s1 = attempts s" by auto
    with assms(2) show ?thesis by simp
  next
    fix s2 s3 a
    assume "attempts s2 = attempts s" "calls s2 = calls s"
      "reconnectSequence s2 = reconnectSequence s"
      "ignoreDetachedEventsUntil s2 = ignoreDetachedEventsUntil s"
      "startAttempt (length (attempts s)) w t opts e s2 = (s3, a)"
      "reconnectLive w t opts e s
         = (s3\<lparr>inFlightReconnect :=
                  Some \<lparr> key = keyForThread w t, sequence = Suc (reconnectSequence s),
                         promise = length (attempts s) \<rparr>,
                attempts := attempts s @ [a],
                callerPromises := callerPromises s @ [ReturnPromise (length (attempts s))]\<rparr>,
            ReturnPromise (length (attempts s)))"
    with assms(1) show ?thesis by auto
  qed
qed

lemma current_fulfilled:
  assumes "p < length (attempts s)"
    and "at_sequence (attempts s ! p) = reconnectSequence s"
    and "point (attempts s ! p)
           \<in> {AtReconnectWorkspace, AtRefreshThread, AtUnsubscribeBeforeReattach, AtSubscribe}"
  shows "length (attempts (settle p Fulfilled e s)) = length (attempts s)
     \<and> reconnectSequence (settle p Fulfilled e s) = reconnectSequence s
     \<and> at_sequence (attempts (settle p Fulfilled e s) ! p) = at_sequence (attempts s ! p)
     \<and> targetKey (attempts (settle p Fulfilled e s) ! p) = targetKey (attempts s ! p)
     \<and> callsAhead (point (attempts (settle p Fulfilled e s) ! p))
         < callsAhead (point (attempts s ! p))
     \<and> (point (attempts (settle p Fulfilled e s) ! p)
           \<in> {AtRefreshThread, AtUnsubscribeBeforeReattach, AtSubscribe}
         \<or> point (attempts (settle p Fulfilled e s) ! p) = Returned True
           \<and> activeSubscriptionKey (settle p Fulfilled e s) = Some (targetKey (attempts s ! p)))"
  using assms
  by (cases "point (attempts s ! p)")
     (simp_all add: settle_def pending_def resume_def body_defs Let_def)

lemma fulfilled_steps:
  assumes "p < length (attempts s)"
    and "at_sequence (attempts s ! p) = reconnectSequence s"
    and "point (attempts s ! p)
           \<in> {AtReconnectWorkspace, AtRefreshThread, AtUnsubscribeBeforeReattach, AtSubscribe}
         \<or> point (attempts s ! p) = Returned True
           \<and> activeSubscriptionKey s = Some (targetKey (attempts s ! p))"
    and "callsAhead (point (attempts s ! p)) \<le> n"
  shows "point (attempts (run (replicate n (e, Settle p Fulfilled)) s) ! p) = Returned True
     \<and> activeSubscriptionKey (run (replicate n (e, Settle p Fulfilled)) s)
         = Some (targetKey (attempts s ! p))"
  using assms
proof (induction n arbitrary: s)
  case 0
  then show ?case by auto
next
  case (Suc n)
  show ?case
  proof (cases "point (attempts s ! p) = Returned True")
    case True
    then have idle: "settle p Fulfilled e s = s"
      by (simp add: settle_idle pending_def)
    from True Suc.prems(3) have "activeSubscriptionKey s = Some (targetKey (attempts s ! p))"
      by auto
    with Suc.IH [of s] Suc.prems(1,2) True idle show ?thesis by simp
  next
    case False
    with Suc.prems(3) have pt: "point (attempts s ! p)
           \<in> {AtReconnectWorkspace, AtRefreshThread, AtUnsubscribeBeforeReattach, AtSubscribe}"
      by blast
    let ?s' = "settle p Fulfilled e s"
    note c = current_fulfilled [OF Suc.prems(1,2) pt, of e]
    from c Suc.prems(1) have 1: "p < length (attempts ?s')" by simp
    from c Suc.prems(2) have 2: "at_sequence (attempts ?s' ! p) = reconnectSequence ?s'" by simp
    from c have key: "targetKey (attempts ?s' ! p) = targetKey (attempts s ! p)" by simp
    from c key have 3: "point (attempts ?s' ! p)
           \<in> {AtReconnectWorkspace, AtRefreshThread, AtUnsubscribeBeforeReattach, AtSubscribe}
         \<or> point (attempts ?s' ! p) = Returned True
           \<and> activeSubscriptionKey ?s' = Some (targetKey (attempts ?s' ! p))"
      by auto
    from c Suc.prems(4) have 4: "callsAhead (point (attempts ?s' ! p)) \<le> n" by simp
    from Suc.IH [OF 1 2 3 4] key show ?thesis by simp
  qed
qed

lemma current_rejected:
  assumes "p < length (attempts s)"
    and "at_sequence (attempts s ! p) = reconnectSequence s"
    and "point (attempts s ! p) \<in> {AtReconnectWorkspace, AtRefreshThread, AtSubscribe}"
  shows "settle p Rejected e s
       = (reconcileDisconnectedState s)
           \<lparr>attempts := (attempts s)[p := (attempts s ! p)\<lparr>point := Returned False\<rparr>]\<rparr>"
  using assms
  by (cases "point (attempts s ! p)")
     (simp_all add: settle_def pending_def resume_def body_defs Let_def)

text \<open>
  C1, as stated, fails in three ways. \<^verbatim>\<open>reconnectLive\<close> is \<^verbatim>\<open>async\<close>, so the second call
  gives its caller a promise of its own: below, the first caller holds the promise at
  position 0 and the second the one at position 1, both resolved with the promise of
  the one attempt. The number of subscribe calls is not always one: when the refresh of
  the attempt is rejected, both promises are fulfilled with \<^verbatim>\<open>false\<close> and no subscribe
  call was ever made. And a second call made while the first promise is unresolved and
  the sequence number unchanged returns \<^verbatim>\<open>false\<close> when a render has meanwhile taken the
  backend out of remote mode.
\<close>

theorem same_key_counterexample:
  "pending (run [(e0, Call ''ws-1'' ''thread-1'' (Some True))] idle1) 0 \<and>
   reconnectSequence (run [(e0, Call ''ws-1'' ''thread-1'' (Some True)),
                           (e0, Call ''ws-1'' ''thread-1'' (Some True))] idle1)
     = reconnectSequence (run [(e0, Call ''ws-1'' ''thread-1'' (Some True))] idle1) \<and>
   length (callerPromises idle1) = 0 \<and>
   length (callerPromises (run [(e0, Call ''ws-1'' ''thread-1'' (Some True))] idle1)) = 1 \<and>
   callerPromises (run [(e0, Call ''ws-1'' ''thread-1'' (Some True)),
                        (e0, Call ''ws-1'' ''thread-1'' (Some True))] idle1)
     = [ReturnPromise 0, ReturnPromise 0] \<and>
   callerResult (run [(e0, Call ''ws-1'' ''thread-1'' (Some True)),
                      (e0, Call ''ws-1'' ''thread-1'' (Some True)),
                      (e0, Settle 0 Rejected)] idle1) 0 = Some False \<and>
   callerResult (run [(e0, Call ''ws-1'' ''thread-1'' (Some True)),
                      (e0, Call ''ws-1'' ''thread-1'' (Some True)),
                      (e0, Settle 0 Rejected)] idle1) 1 = Some False \<and>
   calls (run [(e0, Call ''ws-1'' ''thread-1'' (Some True)),
               (e0, Call ''ws-1'' ''thread-1'' (Some True)),
               (e0, Settle 0 Rejected)] idle1)
     = [(Some 0, RefreshThread ''ws-1'' ''thread-1'')] \<and>
   pending (run [(e0, Call ''ws-1'' ''thread-1'' (Some True)),
                 (e0, Render ''local'' (Some ws1) None False)] idle1) 0 \<and>
   reconnectSequence (run [(e0, Call ''ws-1'' ''thread-1'' (Some True)),
                           (e0, Render ''local'' (Some ws1) None False)] idle1)
     = reconnectSequence (run [(e0, Call ''ws-1'' ''thread-1'' (Some True))] idle1) \<and>
   snd (reconnectLive ''ws-1'' ''thread-1'' (Some True) e0
          (run [(e0, Call ''ws-1'' ''thread-1'' (Some True)),
                (e0, Render ''local'' (Some ws1) None False)] idle1))
     = ReturnFalse"
  by code_simp

text \<open>
  C1, amended: let a call of \<^verbatim>\<open>reconnectLive\<close> for the ids \<open>w\<close> and \<open>t\<close> start an attempt, with
  promise \<open>p\<close>, and let anything happen afterwards that leaves that promise unresolved
  and the sequence number where the attempt put it. Then a second call for \<open>w\<close> and \<open>t\<close>
  that passes the rejection checks (the backend is still remote and there is still an
  active workspace) starts no attempt and makes no call: it sets the desired key to the
  key of \<open>w\<close> and \<open>t\<close>, and it resolves the promise it makes for its caller with \<open>p\<close>,
  as the first call did with the promise it made for its caller. The two callers'
  promises are not the same, and from then on both are resolved with \<open>p\<close>: each is fulfilled with the result of the attempt once the attempt
  has returned, and is unsettled before. Whatever happens next, the one attempt has
  called \<^verbatim>\<open>threadLiveSubscribe(w, t)\<close> at most once and nothing else as a subscribe; it has
  called it exactly once when it stands at or after its subscribe step or has returned
  true, and not yet when it stands before; once it has returned it makes no further
  call. As long as the sequence number is still the attempt's: if the attempt awaits one
  of its calls up to the subscribe and its awaited calls are fulfilled one after the
  other, it returns true, with its key as the active key and exactly one subscribe call
  made; if its awaited session reconnect, refresh or subscribe is rejected, it
  reconciles the connection state and returns false without a further call, so that it
  has made no subscribe call at all when the rejected call was one of the first two.
\<close>

theorem same_key_coalesces:
  assumes inv: "invariant s0"
    and first: "reconnectLive w t o1 e1 s0 = (s1, ReturnPromise p)"
    and started: "length (attempts s1) = Suc (length (attempts s0))"
    and unresolved: "pending (run is s1) p"
    and same: "reconnectSequence (run is s1) = reconnectSequence s1"
    and checks: "backendMode (run is s1) = ''remote''" "activeWorkspace (run is s1) \<noteq> None"
  shows "reconnectLive w t o2 e2 (run is s1)
           = ((run is s1)\<lparr>desiredSubscriptionKey := Some (keyForThread w t),
                           callerPromises := callerPromises (run is s1) @ [ReturnPromise p]\<rparr>,
              ReturnPromise p)
       \<and> callerPromises s1 = callerPromises s0 @ [ReturnPromise p]
       \<and> length (callerPromises s0) < length (callerPromises (run is s1))
       \<and> (\<forall>js e'.
            let c1 = length (callerPromises s0);
                c2 = length (callerPromises (run is s1));
                s3 = run js (fst (reconnectLive w t o2 e2 (run is s1)));
                pt = point (attempts s3 ! p);
                subs = filter isSubscribe (callsOf p s3);
                s4 = run (replicate 4 (e', Settle p Fulfilled)) s3
            in callerPromises s3 ! c1 = ReturnPromise p
               \<and> callerPromises s3 ! c2 = ReturnPromise p
               \<and> callerResult s3 c1 = (case pt of Returned b \<Rightarrow> Some b | _ \<Rightarrow> None)
               \<and> callerResult s3 c2 = (case pt of Returned b \<Rightarrow> Some b | _ \<Rightarrow> None)
               \<and> (subs = [] \<or> subs = [ThreadLiveSubscribe w t])
               \<and> (pt \<in> {AtSubscribe, AtUnsubscribeStale, Returned True}
                     \<longrightarrow> subs = [ThreadLiveSubscribe w t])
               \<and> (pt \<in> {AtReconnectWorkspace, AtRefreshThread, AtUnsubscribeBeforeReattach}
                     \<longrightarrow> subs = [])
               \<and> (\<forall>b ks. pt = Returned b \<longrightarrow> callsOf p (run ks s3) = callsOf p s3)
               \<and> (reconnectSequence s3 = reconnectSequence s1
                    \<and> pt \<in> {AtReconnectWorkspace, AtRefreshThread, AtUnsubscribeBeforeReattach,
                             AtSubscribe}
                     \<longrightarrow> point (attempts s4 ! p) = Returned True
                         \<and> activeSubscriptionKey s4 = Some (keyForThread w t)
                         \<and> filter isSubscribe (callsOf p s4) = [ThreadLiveSubscribe w t])
               \<and> (reconnectSequence s3 = reconnectSequence s1
                    \<and> pt \<in> {AtReconnectWorkspace, AtRefreshThread, AtSubscribe}
                     \<longrightarrow> settle p Rejected e' s3
                           = (reconcileDisconnectedState s3)
                               \<lparr>attempts :=
                                  (attempts s3)[p := (attempts s3 ! p)\<lparr>point := Returned False\<rparr>]\<rparr>))"
proof -
  from started_shape [OF first started] obtain s2 s3 a where
    st: "startAttempt (length (attempts s0)) w t o1 e1 s2 = (s3, a)"
    and seq2: "reconnectSequence s2 = reconnectSequence s0"
    and s1: "s1 = s3\<lparr>inFlightReconnect :=
                       Some \<lparr> key = keyForThread w t, sequence = Suc (reconnectSequence s0),
                              promise = length (attempts s0) \<rparr>,
                     attempts := attempts s0 @ [a],
                     callerPromises :=
                       callerPromises s0 @ [ReturnPromise (length (attempts s0))]\<rparr>"
    and p: "p = length (attempts s0)"
    and wt: "w \<noteq> []" "t \<noteq> []"
    by auto
  let ?f = "\<lparr> key = keyForThread w t, sequence = Suc (reconnectSequence s0), promise = p \<rparr>"
  let ?m = "run is s1"
  let ?c1 = "length (callerPromises s0)"
  let ?c2 = "length (callerPromises ?m)"
  let ?sub = "ThreadLiveSubscribe w t"
  have seq1: "reconnectSequence s1 = Suc (reconnectSequence s0)"
    using startAttempt_frame(2) [OF st] seq2 by (simp add: s1)
  have fl: "inFlightReconnect s1 = Some ?f" by (simp add: s1 p)
  have len: "p < length (attempts s1)" by (simp add: s1 p)
  have a: "attempts s1 ! p = a" by (simp add: s1 p)
  have cps1: "callerPromises s1 = callerPromises s0 @ [ReturnPromise p]"
    by (simp add: s1 p)
  then have cp1: "?c1 < length (callerPromises s1)" "callerPromises s1 ! ?c1 = ReturnPromise p"
    by simp_all
  have "inFlightReconnect ?m = Some ?f"
    using inFlight_run [OF fl, of "is"] len unresolved same by simp
  then have co: "reconnectLive w t o2 e2 ?m
           = (?m\<lparr>desiredSubscriptionKey := Some (keyForThread w t),
                  callerPromises := callerPromises ?m @ [ReturnPromise p]\<rparr>,
              ReturnPromise p)"
    using reconnectLive_coalesced [of ?m w t ?f o2 e2] checks wt same seq1 by simp
  let ?n = "fst (reconnectLive w t o2 e2 ?m)"
  have distinct: "?c1 < ?c2"
    using callerPromises_kept(2) [OF cp1(1), of "is"] .
  have cpm: "callerPromises ?m ! ?c1 = ReturnPromise p"
    using callerPromises_kept(1) [OF cp1(1), of "is"] cp1(2) by simp
  have cpn: "?c1 < length (callerPromises ?n)" "callerPromises ?n ! ?c1 = ReturnPromise p"
    "?c2 < length (callerPromises ?n)" "callerPromises ?n ! ?c2 = ReturnPromise p"
    using distinct cpm by (simp_all add: co nth_append)
  have inv1: "invariant s1"
    using invariant_reconnectLive [OF inv, of w t o1 e1] first by simp
  have seqa: "at_sequence a = reconnectSequence s1"
    using startAttempt_attempt(5) [OF st] seq2 seq1 by simp
  have "(let c1 = ?c1; c2 = ?c2; s3 = run js ?n;
             pt = point (attempts s3 ! p);
             subs = filter isSubscribe (callsOf p s3);
             s4 = run (replicate 4 (e', Settle p Fulfilled)) s3
         in callerPromises s3 ! c1 = ReturnPromise p
            \<and> callerPromises s3 ! c2 = ReturnPromise p
            \<and> callerResult s3 c1 = (case pt of Returned b \<Rightarrow> Some b | _ \<Rightarrow> None)
            \<and> callerResult s3 c2 = (case pt of Returned b \<Rightarrow> Some b | _ \<Rightarrow> None)
            \<and> (subs = [] \<or> subs = [?sub])
            \<and> (pt \<in> {AtSubscribe, AtUnsubscribeStale, Returned True} \<longrightarrow> subs = [?sub])
            \<and> (pt \<in> {AtReconnectWorkspace, AtRefreshThread, AtUnsubscribeBeforeReattach}
                  \<longrightarrow> subs = [])
            \<and> (\<forall>b ks. pt = Returned b \<longrightarrow> callsOf p (run ks s3) = callsOf p s3)
            \<and> (reconnectSequence s3 = reconnectSequence s1
                 \<and> pt \<in> {AtReconnectWorkspace, AtRefreshThread, AtUnsubscribeBeforeReattach,
                          AtSubscribe}
                  \<longrightarrow> point (attempts s4 ! p) = Returned True
                      \<and> activeSubscriptionKey s4 = Some (keyForThread w t)
                      \<and> filter isSubscribe (callsOf p s4) = [?sub])
            \<and> (reconnectSequence s3 = reconnectSequence s1
                 \<and> pt \<in> {AtReconnectWorkspace, AtRefreshThread, AtSubscribe}
                  \<longrightarrow> settle p Rejected e' s3
                        = (reconcileDisconnectedState s3)
                            \<lparr>attempts :=
                               (attempts s3)[p := (attempts s3 ! p)\<lparr>point := Returned False\<rparr>]\<rparr>))"
    for js e'
  proof -
    let ?s3 = "run js ?n"
    let ?pt = "point (attempts ?s3 ! p)"
    let ?subs = "filter isSubscribe (callsOf p ?s3)"
    let ?s4 = "run (replicate 4 (e', Settle p Fulfilled)) ?s3"
    have eq: "?s3 = run (is @ (e2, Call w t o2) # js) s1"
      by (simp add: run_append)
    have eq4: "?s4 = run ((is @ (e2, Call w t o2) # js) @ replicate 4 (e', Settle p Fulfilled)) s1"
      unfolding eq by (simp only: run_append)
    have inv3: "invariant ?s3"
      unfolding eq using inv1 by (rule invariant_run)
    have inv4: "invariant ?s4"
      unfolding eq4 using inv1 by (rule invariant_run)
    have "length (attempts s1) \<le> length (attempts ?s3)"
      "sameClosure (attempts s1 ! p) (attempts ?s3 ! p)"
      unfolding eq using attempts_run [of s1 "is @ (e2, Call w t o2) # js"] len by simp_all
    with len a startAttempt_attempt(1,2,3) [OF st] seqa
    have len3: "p < length (attempts ?s3)"
      and ids: "at_workspaceId (attempts ?s3 ! p) = w" "at_threadId (attempts ?s3 ! p) = t"
      and key3: "targetKey (attempts ?s3 ! p) = keyForThread w t"
      and seq3: "at_sequence (attempts ?s3 ! p) = reconnectSequence s1"
      by (simp_all add: sameClosure_def)
    have "length (attempts ?s3) \<le> length (attempts ?s4)"
      "sameClosure (attempts ?s3 ! p) (attempts ?s4 ! p)"
      using attempts_run [of ?s3 "replicate 4 (e', Settle p Fulfilled)"] len3 by simp_all
    with len3 ids
    have len4: "p < length (attempts ?s4)"
      and ids4: "at_workspaceId (attempts ?s4 ! p) = w" "at_threadId (attempts ?s4 ! p) = t"
      by (simp_all add: sameClosure_def)
    have f1: "callerPromises ?s3 ! ?c1 = ReturnPromise p"
      using callerPromises_kept(1) [OF cpn(1), of js] cpn(2) by simp
    have f2: "callerPromises ?s3 ! ?c2 = ReturnPromise p"
      using callerPromises_kept(1) [OF cpn(3), of js] cpn(4) by simp
    have f3: "callerResult ?s3 ?c1 = (case ?pt of Returned b \<Rightarrow> Some b | _ \<Rightarrow> None)"
      using callerPromises_kept(2) [OF cpn(1), of js] f1 len3
      by (simp add: callerResult_def)
    have f4: "callerResult ?s3 ?c2 = (case ?pt of Returned b \<Rightarrow> Some b | _ \<Rightarrow> None)"
      using callerPromises_kept(2) [OF cpn(3), of js] f2 len3
      by (simp add: callerResult_def)
    from inv3 len3 have ag: "callsAgree (attempts ?s3 ! p) (callsOf p ?s3)"
      by (simp add: invariant_def)
    have f5: "?subs = [] \<or> ?subs = [?sub]"
      using ag by (cases ?pt) (auto simp: callsAgree_def Let_def ids split: if_splits)
    have f6: "?pt \<in> {AtSubscribe, AtUnsubscribeStale, Returned True} \<longrightarrow> ?subs = [?sub]"
      using ag by (cases ?pt) (auto simp: callsAgree_def Let_def ids split: if_splits)
    have f7: "?pt \<in> {AtReconnectWorkspace, AtRefreshThread, AtUnsubscribeBeforeReattach}
                  \<longrightarrow> ?subs = []"
      using ag by (cases ?pt) (auto simp: callsAgree_def Let_def ids split: if_splits)
    have f8: "\<forall>b ks. ?pt = Returned b \<longrightarrow> callsOf p (run ks ?s3) = callsOf p ?s3"
    proof (intro allI impI)
      fix b ks
      assume "?pt = Returned b"
      then have "\<not> pending ?s3 p" by (simp add: pending_def)
      with len3 show "callsOf p (run ks ?s3) = callsOf p ?s3"
        by (rule callsOf_returned_run)
    qed
    have f9: "reconnectSequence ?s3 = reconnectSequence s1
                 \<and> ?pt \<in> {AtReconnectWorkspace, AtRefreshThread, AtUnsubscribeBeforeReattach,
                          AtSubscribe}
                  \<longrightarrow> point (attempts ?s4 ! p) = Returned True
                      \<and> activeSubscriptionKey ?s4 = Some (keyForThread w t)
                      \<and> filter isSubscribe (callsOf p ?s4) = [?sub]"
    proof
      assume h: "reconnectSequence ?s3 = reconnectSequence s1
                 \<and> ?pt \<in> {AtReconnectWorkspace, AtRefreshThread, AtUnsubscribeBeforeReattach,
                          AtSubscribe}"
      then have cur: "at_sequence (attempts ?s3 ! p) = reconnectSequence ?s3"
        using seq3 by simp
      from h have ahead: "callsAhead ?pt \<le> 4" by auto
      from h have "?pt \<in> {AtReconnectWorkspace, AtRefreshThread, AtUnsubscribeBeforeReattach,
                          AtSubscribe}
         \<or> ?pt = Returned True
           \<and> activeSubscriptionKey ?s3 = Some (targetKey (attempts ?s3 ! p))"
        by blast
      from fulfilled_steps [OF len3 cur this ahead, of e']
      have r: "point (attempts ?s4 ! p) = Returned True"
        "activeSubscriptionKey ?s4 = Some (keyForThread w t)"
        by (simp_all add: key3)
      from inv4 len4 have "callsAgree (attempts ?s4 ! p) (callsOf p ?s4)"
        by (simp add: invariant_def)
      with r(1) have "filter isSubscribe (callsOf p ?s4) = [?sub]"
        by (simp add: callsAgree_def Let_def ids4)
      with r show "point (attempts ?s4 ! p) = Returned True
                      \<and> activeSubscriptionKey ?s4 = Some (keyForThread w t)
                      \<and> filter isSubscribe (callsOf p ?s4) = [?sub]"
        by simp
    qed
    have f10: "reconnectSequence ?s3 = reconnectSequence s1
                 \<and> ?pt \<in> {AtReconnectWorkspace, AtRefreshThread, AtSubscribe}
                  \<longrightarrow> settle p Rejected e' ?s3
                        = (reconcileDisconnectedState ?s3)
                            \<lparr>attempts :=
                               (attempts ?s3)[p := (attempts ?s3 ! p)\<lparr>point := Returned False\<rparr>]\<rparr>"
    proof
      assume h: "reconnectSequence ?s3 = reconnectSequence s1
                 \<and> ?pt \<in> {AtReconnectWorkspace, AtRefreshThread, AtSubscribe}"
      then have cur: "at_sequence (attempts ?s3 ! p) = reconnectSequence ?s3"
        using seq3 by simp
      from h have "?pt \<in> {AtReconnectWorkspace, AtRefreshThread, AtSubscribe}" by simp
      from current_rejected [OF len3 cur this, of e']
      show "settle p Rejected e' ?s3
                        = (reconcileDisconnectedState ?s3)
                            \<lparr>attempts :=
                               (attempts ?s3)[p := (attempts ?s3 ! p)\<lparr>point := Returned False\<rparr>]\<rparr>" .
    qed
    show ?thesis
      unfolding Let_def
      by (intro conjI) (fact f1 f2 f3 f4 f5 f6 f7 f8 f9 f10)+
  qed
  with co cps1 distinct show ?thesis by blast
qed

theorem same_key_coalesces_witness:
  "reconnectLive ''ws-1'' ''thread-1'' (Some True) e0
      (fst (reconnectLive ''ws-1'' ''thread-1'' (Some False) e0 idle1))
     = ((fst (reconnectLive ''ws-1'' ''thread-1'' (Some False) e0 idle1))
          \<lparr>desiredSubscriptionKey := Some ''ws-1:thread-1'',
           callerPromises := [ReturnPromise 0, ReturnPromise 0]\<rparr>, ReturnPromise 0) \<and>
   length (callerPromises idle1)
     < length (callerPromises (fst (reconnectLive ''ws-1'' ''thread-1'' (Some False) e0 idle1))) \<and>
   point (attempts (run (replicate 4 (e0, Settle 0 Fulfilled))
      (fst (reconnectLive ''ws-1'' ''thread-1'' (Some True) e0
         (fst (reconnectLive ''ws-1'' ''thread-1'' (Some False) e0 idle1))))) ! 0)
     = Returned True \<and>
   filter isSubscribe (callsOf 0 (run (replicate 4 (e0, Settle 0 Fulfilled))
      (fst (reconnectLive ''ws-1'' ''thread-1'' (Some True) e0
         (fst (reconnectLive ''ws-1'' ''thread-1'' (Some False) e0 idle1))))))
     = [ThreadLiveSubscribe ''ws-1'' ''thread-1'']"
proof -
  let ?s1 = "fst (reconnectLive ''ws-1'' ''thread-1'' (Some False) e0 idle1)"
  let ?n = "fst (reconnectLive ''ws-1'' ''thread-1'' (Some True) e0 ?s1)"
  let ?s4 = "run (replicate 4 (e0, Settle 0 Fulfilled)) ?n"
  have inv: "invariant idle1"
    unfolding idle1_def by (rule invariant_initial)
  have "snd (reconnectLive ''ws-1'' ''thread-1'' (Some False) e0 idle1) = ReturnPromise 0"
    by code_simp
  then have first: "reconnectLive ''ws-1'' ''thread-1'' (Some False) e0 idle1 = (?s1, ReturnPromise 0)"
    by (simp add: prod_eq_iff)
  have started: "length (attempts ?s1) = Suc (length (attempts idle1))" by code_simp
  have unresolved: "pending (run [] ?s1) 0" by code_simp
  have same: "reconnectSequence (run [] ?s1) = reconnectSequence ?s1" by simp
  have checks: "backendMode (run [] ?s1) = ''remote''" "activeWorkspace (run [] ?s1) \<noteq> None"
    by code_simp+
  have pt: "point (attempts ?n ! 0) = AtSubscribe" by code_simp
  have sq: "reconnectSequence ?n = reconnectSequence ?s1" by code_simp
  have key: "keyForThread ''ws-1'' ''thread-1'' = ''ws-1:thread-1''" by code_simp
  have cp: "callerPromises ?s1 = [ReturnPromise 0]" by code_simp
  note T = same_key_coalesces [OF inv first started unresolved same checks, of "Some True" e0]
  from T [THEN conjunct1]
  have w1: "reconnectLive ''ws-1'' ''thread-1'' (Some True) e0 ?s1
     = (?s1\<lparr>desiredSubscriptionKey := Some ''ws-1:thread-1'',
            callerPromises := [ReturnPromise 0, ReturnPromise 0]\<rparr>, ReturnPromise 0)"
    by (simp add: key cp)
  from T [THEN conjunct2, THEN conjunct2, THEN conjunct1]
  have w2: "length (callerPromises idle1) < length (callerPromises ?s1)"
    by simp
  note L = T [THEN conjunct2, THEN conjunct2, THEN conjunct2,
      THEN spec [of _ "[]"], THEN spec [of _ e0], unfolded Let_def run.simps(1)]
  have "reconnectSequence ?n = reconnectSequence ?s1
      \<and> point (attempts ?n ! 0)
          \<in> {AtReconnectWorkspace, AtRefreshThread, AtUnsubscribeBeforeReattach, AtSubscribe}"
    by (simp add: pt sq)
  with L have "point (attempts ?s4 ! 0) = Returned True
     \<and> activeSubscriptionKey ?s4 = Some (keyForThread ''ws-1'' ''thread-1'')
     \<and> filter isSubscribe (callsOf 0 ?s4) = [ThreadLiveSubscribe ''ws-1'' ''thread-1'']"
    by blast
  then have w3: "point (attempts ?s4 ! 0) = Returned True"
    and w4: "filter isSubscribe (callsOf 0 ?s4) = [ThreadLiveSubscribe ''ws-1'' ''thread-1'']"
    by simp_all
  from w1 w2 w3 w4 show ?thesis by blast
qed

section \<open>A blur while a subscribe call is pending\<close>

lemma handleBlur_frame:
  "attempts (handleBlur s) = attempts s"
  "reconnectSequence (handleBlur s) = Suc (reconnectSequence s)"
  "desiredSubscriptionKey (handleBlur s) = None"
  unfolding handleBlur_def Let_def reconcile_eq unsubscribeByKey_eq
  by (simp_all split: option.splits)

text \<open>
  C2, as stated, fails: the attempt unsubscribes only if the desired key is no longer
  its own when its subscribe call resolves. Here a subscribe call is pending at a blur,
  the same key is requested again, and then the first call resolves: the first attempt
  returns false and no unsubscribe is ever issued. The same happens, with no second
  request, when the component renders with the thread selected while the document is
  hidden: the selection effect writes the desired key before it looks at the
  visibility.
\<close>

theorem blur_cancels_pending_subscribe_counterexample:
  "point (attempts (run [(e0, Call ''ws-1'' ''thread-1'' (Some False)), (e0, WindowBlur)] idle1) ! 0)
     = AtSubscribe \<and>
   point (attempts (run [(e0, Call ''ws-1'' ''thread-1'' (Some False)), (e0, WindowBlur),
                         (e0, Call ''ws-1'' ''thread-1'' (Some False)),
                         (e0, Settle 0 Fulfilled)] idle1) ! 0)
     = Returned False \<and>
   calls (run [(e0, Call ''ws-1'' ''thread-1'' (Some False)), (e0, WindowBlur),
               (e0, Call ''ws-1'' ''thread-1'' (Some False)),
               (e0, Settle 0 Fulfilled)] idle1)
     = [(Some 0, ThreadLiveSubscribe ''ws-1'' ''thread-1''),
        (Some 1, ThreadLiveSubscribe ''ws-1'' ''thread-1'')] \<and>
   point (attempts (run [(e0, Call ''ws-1'' ''thread-1'' (Some False)), (e0, WindowBlur),
                         (hidden, Render ''remote'' (Some ws1) (Some ''thread-1'') False),
                         (hidden, Settle 0 Fulfilled)] idle1) ! 0)
     = Returned False \<and>
   calls (run [(e0, Call ''ws-1'' ''thread-1'' (Some False)), (e0, WindowBlur),
               (hidden, Render ''remote'' (Some ws1) (Some ''thread-1'') False),
               (hidden, Settle 0 Fulfilled)] idle1)
     = [(Some 0, ThreadLiveSubscribe ''ws-1'' ''thread-1'')]"
  by code_simp

text \<open>
  C2, amended: take an attempt whose subscribe call is pending when a blur (or a
  visibility change to hidden) occurs; the blur clears the desired key. Whatever happens
  afterwards, the attempt never resolves true. When its subscribe call is fulfilled, it
  issues an unsubscribe for its two ids if the desired key is not its key at that moment,
  and then returns false once that unsubscribe settles; if the desired key is its key
  again, or if the subscribe call is rejected, it returns false at once and issues no
  unsubscribe. In no case does the attempt change the active key. The desired key is
  still empty at that moment, so that a fulfilled subscribe call is followed by the
  unsubscribe, when since the blur nothing has happened but this: awaited calls
  settled, \<^verbatim>\<open>finally\<close> callbacks ran, the window lost focus, it gained focus or the
  visibility changed with the document hidden, the component unmounted.
\<close>

theorem blur_cancels_pending_subscribe:
  assumes inv: "invariant s" and p: "p < length (attempts s)"
    and at: "point (attempts s ! p) = AtSubscribe"
  shows "desiredSubscriptionKey (handleBlur s) = None
     \<and> (\<forall>is out e.
          let a = attempts s ! p; s2 = run is (handleBlur s) in
            point (attempts s2 ! p) \<noteq> Returned True
            \<and> (list_all quiet is \<longrightarrow> desiredSubscriptionKey s2 = None)
            \<and> (list_all quiet is \<and> point (attempts s2 ! p) = AtSubscribe \<longrightarrow>
                 settle p Fulfilled e s2 =
                   s2\<lparr>calls := calls s2 @
                         [(Some p, ThreadLiveUnsubscribe (at_workspaceId a) (at_threadId a))],
                      attempts :=
                        (attempts s2)[p := (attempts s2 ! p)\<lparr>point := AtUnsubscribeStale\<rparr>]\<rparr>)
            \<and> (point (attempts s2 ! p) = AtSubscribe \<longrightarrow>
                 settle p out e s2 =
                   (if out = Fulfilled \<and> desiredSubscriptionKey s2 \<noteq> Some (targetKey a)
                    then s2\<lparr>calls := calls s2 @
                                [(Some p, ThreadLiveUnsubscribe (at_workspaceId a) (at_threadId a))],
                            attempts :=
                              (attempts s2)[p := (attempts s2 ! p)\<lparr>point := AtUnsubscribeStale\<rparr>]\<rparr>
                    else s2\<lparr>attempts :=
                              (attempts s2)[p := (attempts s2 ! p)\<lparr>point := Returned False\<rparr>]\<rparr>))
            \<and> (point (attempts s2 ! p) = AtUnsubscribeStale \<longrightarrow>
                 settle p out e s2 =
                   s2\<lparr>attempts :=
                        (attempts s2)[p := (attempts s2 ! p)\<lparr>point := Returned False\<rparr>]\<rparr>))"
proof -
  let ?b = "handleBlur s"
  from inv p have "at_sequence (attempts s ! p) \<le> reconnectSequence s"
    by (simp add: invariant_def)
  then have stale: "p < length (attempts ?b)"
    "at_sequence (attempts ?b ! p) < reconnectSequence ?b"
    "point (attempts ?b ! p) \<noteq> Returned True"
    using p at by (simp_all add: handleBlur_frame)
  have "(let a = attempts s ! p; s2 = run is ?b in
            point (attempts s2 ! p) \<noteq> Returned True
            \<and> (list_all quiet is \<longrightarrow> desiredSubscriptionKey s2 = None)
            \<and> (list_all quiet is \<and> point (attempts s2 ! p) = AtSubscribe \<longrightarrow>
                 settle p Fulfilled e s2 =
                   s2\<lparr>calls := calls s2 @
                         [(Some p, ThreadLiveUnsubscribe (at_workspaceId a) (at_threadId a))],
                      attempts :=
                        (attempts s2)[p := (attempts s2 ! p)\<lparr>point := AtUnsubscribeStale\<rparr>]\<rparr>)
            \<and> (point (attempts s2 ! p) = AtSubscribe \<longrightarrow>
                 settle p out e s2 =
                   (if out = Fulfilled \<and> desiredSubscriptionKey s2 \<noteq> Some (targetKey a)
                    then s2\<lparr>calls := calls s2 @
                                [(Some p, ThreadLiveUnsubscribe (at_workspaceId a) (at_threadId a))],
                            attempts :=
                              (attempts s2)[p := (attempts s2 ! p)\<lparr>point := AtUnsubscribeStale\<rparr>]\<rparr>
                    else s2\<lparr>attempts :=
                              (attempts s2)[p := (attempts s2 ! p)\<lparr>point := Returned False\<rparr>]\<rparr>))
            \<and> (point (attempts s2 ! p) = AtUnsubscribeStale \<longrightarrow>
                 settle p out e s2 =
                   s2\<lparr>attempts :=
                        (attempts s2)[p := (attempts s2 ! p)\<lparr>point := Returned False\<rparr>]\<rparr>))"
    for "is" out e
  proof -
    let ?s2 = "run is ?b"
    from stale_run [OF stale, of "is"] have st2: "p < length (attempts ?s2)"
      "at_sequence (attempts ?s2 ! p) \<noteq> reconnectSequence ?s2"
      "point (attempts ?s2 ! p) \<noteq> Returned True"
      by simp_all
    have "sameClosure (attempts ?b ! p) (attempts ?s2 ! p)"
      using attempts_run [of ?b "is"] stale(1) by simp
    then have ids: "targetKey (attempts ?s2 ! p) = targetKey (attempts s ! p)"
      "at_workspaceId (attempts ?s2 ! p) = at_workspaceId (attempts s ! p)"
      "at_threadId (attempts ?s2 ! p) = at_threadId (attempts s ! p)"
      by (simp_all add: sameClosure_def handleBlur_frame)
    have q: "list_all quiet is \<longrightarrow> desiredSubscriptionKey ?s2 = None"
      using quiet_run [of "is" ?b] by (simp add: handleBlur_frame)
    show ?thesis
      unfolding Let_def
      using st2(3) stale_settle [OF st2(1,2), of out e] stale_settle [OF st2(1,2), of Fulfilled e] q
      by (cases "point (attempts ?s2 ! p)") (simp_all add: ids)
  qed
  then show ?thesis
    by (simp add: handleBlur_frame)
qed

theorem blur_cancels_pending_subscribe_witness:
  "invariant subscribing1 \<and> 0 < length (attempts subscribing1)
   \<and> point (attempts subscribing1 ! 0) = AtSubscribe
   \<and> calls (settle 0 Fulfilled e0 (handleBlur subscribing1))
       = [(Some 0, ThreadLiveSubscribe ''ws-1'' ''thread-1''),
          (Some 0, ThreadLiveUnsubscribe ''ws-1'' ''thread-1'')]
   \<and> point (attempts (settle 0 Fulfilled e0 (handleBlur subscribing1)) ! 0) = AtUnsubscribeStale
   \<and> point (attempts (settle 0 Rejected e0 (settle 0 Fulfilled e0 (handleBlur subscribing1))) ! 0)
       = Returned False"
proof -
  have p: "0 < length (attempts subscribing1)" by code_simp
  have at: "point (attempts subscribing1 ! 0) = AtSubscribe" by code_simp
  note T = blur_cancels_pending_subscribe [OF invariant_subscribing1 p at]
  from T have des: "desiredSubscriptionKey (handleBlur subscribing1) = None" by (rule conjunct1)
  note 1 = T [THEN conjunct2, THEN spec [of _ "[]"], THEN spec [of _ Fulfilled],
      THEN spec [of _ e0]]
  have at2: "point (attempts (handleBlur subscribing1) ! 0) = AtSubscribe" by code_simp
  have ids: "at_workspaceId (attempts subscribing1 ! 0) = ''ws-1''"
    "at_threadId (attempts subscribing1 ! 0) = ''thread-1''" by code_simp+
  have cl: "calls (handleBlur subscribing1) = [(Some 0, ThreadLiveSubscribe ''ws-1'' ''thread-1'')]"
    by code_simp
  have len: "0 < length (attempts (handleBlur subscribing1))" by code_simp
  from 1 have eq: "settle 0 Fulfilled e0 (handleBlur subscribing1) =
      (handleBlur subscribing1)
        \<lparr>calls := calls (handleBlur subscribing1) @
                    [(Some 0, ThreadLiveUnsubscribe ''ws-1'' ''thread-1'')],
         attempts := (attempts (handleBlur subscribing1))
                       [0 := (attempts (handleBlur subscribing1) ! 0)\<lparr>point := AtUnsubscribeStale\<rparr>]\<rparr>"
    by (simp add: Let_def at2 des ids)
  have fin: "point (attempts (settle 0 Rejected e0 (settle 0 Fulfilled e0 (handleBlur subscribing1))) ! 0)
       = Returned False" by code_simp
  from eq cl have cl2: "calls (settle 0 Fulfilled e0 (handleBlur subscribing1))
       = [(Some 0, ThreadLiveSubscribe ''ws-1'' ''thread-1''),
          (Some 0, ThreadLiveUnsubscribe ''ws-1'' ''thread-1'')]"
    by simp
  from eq len have pt2:
    "point (attempts (settle 0 Fulfilled e0 (handleBlur subscribing1)) ! 0) = AtUnsubscribeStale"
    by simp
  show ?thesis
    using invariant_subscribing1 p at cl2 pt2 fin by blast
qed

section \<open>A request for another key\<close>

text \<open>
  C4, as stated, fails: a call for another key that starts an attempt advances the
  sequence number, and the first attempt gives up at its next check of the sequence
  number, not only at its last step. Here the first attempt awaits its refresh when the
  second call is made; when the refresh resolves it returns false without ever calling
  subscribe.
\<close>

theorem other_key_counterexample:
  "point (attempts (run [(e0, Call ''ws-1'' ''thread-1'' (Some True)),
                         (e0, Call ''ws-1'' ''thread-2'' (Some True))] idle1) ! 0)
     = AtRefreshThread \<and>
   point (attempts (run [(e0, Call ''ws-1'' ''thread-1'' (Some True)),
                         (e0, Call ''ws-1'' ''thread-2'' (Some True)),
                         (e0, Settle 0 Fulfilled)] idle1) ! 0)
     = Returned False \<and>
   calls (run [(e0, Call ''ws-1'' ''thread-1'' (Some True)),
               (e0, Call ''ws-1'' ''thread-2'' (Some True)),
               (e0, Settle 0 Fulfilled)] idle1)
     = [(Some 0, RefreshThread ''ws-1'' ''thread-1''),
        (Some 1, RefreshThread ''ws-1'' ''thread-2'')]"
  by code_simp

text \<open>
  C4, amended: let an attempt for key \<open>A\<close> be unresolved, and let a call of
  \<^verbatim>\<open>reconnectLive\<close> for a different key \<open>B\<close> pass the initial checks. The call leaves the
  attempt for \<open>A\<close> where it stands and makes no call on its behalf; it sets the desired
  key to \<open>B\<close>, and it advances the sequence number by one unless it returns the promise
  of an attempt for \<open>B\<close> already in flight. Either way the sequence number is now above
  the one the attempt for \<open>A\<close> was started with. From then on the attempt for \<open>A\<close>
  never resolves true, and whenever its awaited call settles it does the following.
  Awaiting the session reconnect or the refresh, it returns false and does nothing else.
  Awaiting the unsubscribe that precedes a reattach, it clears the active key and calls
  subscribe. Awaiting subscribe, it issues an unsubscribe for \<open>A\<close> if the call was
  fulfilled and the desired key is not \<open>A\<close>, and returns false otherwise. Awaiting that
  last unsubscribe, it returns false.
\<close>

theorem other_key_invalidates:
  assumes inv: "invariant s" and pend: "pending s p"
    and other: "targetKey (attempts s ! p) \<noteq> keyForThread w t"
    and call: "reconnectLive w t opts e s = (s1, r)"
    and accepted: "r \<noteq> ReturnFalse"
  shows "attempts s1 ! p = attempts s ! p
     \<and> callsOf p s1 = callsOf p s
     \<and> desiredSubscriptionKey s1 = Some (keyForThread w t)
     \<and> reconnectSequence s1
          = (if length (attempts s1) = length (attempts s)
             then reconnectSequence s else reconnectSequence s + 1)
     \<and> at_sequence (attempts s ! p) < reconnectSequence s1
     \<and> (\<forall>is out e'.
          let a = attempts s ! p; s2 = run is s1 in
            point (attempts s2 ! p) \<noteq> Returned True
            \<and> settle p out e' s2 =
                (case point (attempts s2 ! p) of
                   AtReconnectWorkspace \<Rightarrow>
                     s2\<lparr>attempts := (attempts s2)[p := (attempts s2 ! p)\<lparr>point := Returned False\<rparr>]\<rparr>
                 | AtRefreshThread \<Rightarrow>
                     s2\<lparr>attempts := (attempts s2)[p := (attempts s2 ! p)\<lparr>point := Returned False\<rparr>]\<rparr>
                 | AtUnsubscribeBeforeReattach \<Rightarrow>
                     s2\<lparr>activeSubscriptionKey := None,
                        calls := calls s2 @
                          [(Some p, ThreadLiveSubscribe (at_workspaceId a) (at_threadId a))],
                        attempts := (attempts s2)[p := (attempts s2 ! p)\<lparr>point := AtSubscribe\<rparr>]\<rparr>
                 | AtSubscribe \<Rightarrow>
                     if out = Fulfilled \<and> desiredSubscriptionKey s2 \<noteq> Some (targetKey a)
                     then s2\<lparr>calls := calls s2 @
                                 [(Some p, ThreadLiveUnsubscribe (at_workspaceId a) (at_threadId a))],
                             attempts :=
                               (attempts s2)[p := (attempts s2 ! p)\<lparr>point := AtUnsubscribeStale\<rparr>]\<rparr>
                     else s2\<lparr>attempts :=
                               (attempts s2)[p := (attempts s2 ! p)\<lparr>point := Returned False\<rparr>]\<rparr>
                 | AtUnsubscribeStale \<Rightarrow>
                     s2\<lparr>attempts := (attempts s2)[p := (attempts s2 ! p)\<lparr>point := Returned False\<rparr>]\<rparr>
                 | Returned b \<Rightarrow> s2))"
proof -
  from pend have p: "p < length (attempts s)" and ret: "point (attempts s ! p) \<noteq> Returned True"
    by (auto simp: pending_def)
  from inv p have le: "at_sequence (attempts s ! p) \<le> reconnectSequence s"
    by (simp add: invariant_def)
  have first: "attempts s1 ! p = attempts s ! p
     \<and> callsOf p s1 = callsOf p s
     \<and> desiredSubscriptionKey s1 = Some (keyForThread w t)
     \<and> reconnectSequence s1
          = (if length (attempts s1) = length (attempts s)
             then reconnectSequence s else reconnectSequence s + 1)
     \<and> at_sequence (attempts s ! p) < reconnectSequence s1
     \<and> p < length (attempts s1)"
    using reconnectLive_cases [of w t opts e s]
  proof (elim disjE exE conjE)
    assume "reconnectLive w t opts e s
        = ((reconcileDisconnectedState s)\<lparr>callerPromises := callerPromises s @ [ReturnFalse]\<rparr>,
            ReturnFalse)"
    with call accepted show ?thesis by simp
  next
    fix f
    assume f: "inFlightReconnect s = Some f" "key f = keyForThread w t"
      "sequence f = reconnectSequence s"
      and eq: "reconnectLive w t opts e s
          = (s\<lparr>desiredSubscriptionKey := Some (keyForThread w t),
             callerPromises := callerPromises s @ [ReturnPromise (promise f)]\<rparr>,
           ReturnPromise (promise f))"
    from eq call have s1: "s1 = s\<lparr>desiredSubscriptionKey := Some (keyForThread w t),
                                 callerPromises := callerPromises s @ [ReturnPromise (promise f)]\<rparr>"
      by simp
    from inv f(1) have q: "promise f < length (attempts s)"
      "key f = targetKey (attempts s ! promise f)"
      "sequence f = at_sequence (attempts s ! promise f)"
      by (simp_all add: invariant_def)
    from other f(2) q(2) have ne: "p \<noteq> promise f" by auto
    have "at_sequence (attempts s ! p) < reconnectSequence s"
    proof (cases "p < promise f")
      case True
      with inv q(1) have "at_sequence (attempts s ! p) < at_sequence (attempts s ! promise f)"
        by (simp add: invariant_def)
      with q(3) f(3) show ?thesis by simp
    next
      case False
      with ne have "promise f < p" by simp
      with inv p have "at_sequence (attempts s ! promise f) < at_sequence (attempts s ! p)"
        by (simp add: invariant_def)
      with q(3) f(3) le show ?thesis by simp
    qed
    with p show ?thesis by (simp add: s1 callsOf_def)
  next
    fix s2' s3 a'
    assume cl2: "calls s2' = calls s"
      and seq2: "reconnectSequence s2' = reconnectSequence s"
      and st: "startAttempt (length (attempts s)) w t opts e s2' = (s3, a')"
      and eq: "reconnectLive w t opts e s
          = (s3\<lparr>inFlightReconnect :=
                   Some \<lparr> key = keyForThread w t, sequence = Suc (reconnectSequence s),
                          promise = length (attempts s) \<rparr>,
                 attempts := attempts s @ [a'],
                callerPromises := callerPromises s @ [ReturnPromise (length (attempts s))]\<rparr>,
             ReturnPromise (length (attempts s)))"
    from eq call have s1: "s1 = s3\<lparr>inFlightReconnect :=
                       Some \<lparr> key = keyForThread w t, sequence = Suc (reconnectSequence s),
                              promise = length (attempts s) \<rparr>,
                     attempts := attempts s @ [a'],
                     callerPromises :=
                       callerPromises s @ [ReturnPromise (length (attempts s))]\<rparr>"
      by simp
    have kept: "attempts s1 ! p = attempts s ! p"
      using p by (simp add: s1 nth_append)
    have seq1: "reconnectSequence s1 = Suc (reconnectSequence s)"
      using startAttempt_frame(2) [OF st] seq2 by (simp add: s1)
    have des: "desiredSubscriptionKey s1 = Some (keyForThread w t)"
      using startAttempt_frame(4) [OF st] by (simp add: s1)
    have "calls s1 = calls s @ map (Pair (Some (length (attempts s)))) (emitted s2' s3)"
      using startAttempt_calls(1) [OF st] cl2 by (simp add: s1)
    from callsOf_emitted [OF this, of p] p have co: "callsOf p s1 = callsOf p s" by simp
    have len: "length (attempts s1) = Suc (length (attempts s))" by (simp add: s1)
    from kept co des seq1 le len p show ?thesis by simp
  qed
  then have kept: "attempts s1 ! p = attempts s ! p" by simp
  from first ret have stale: "p < length (attempts s1)"
    "at_sequence (attempts s1 ! p) < reconnectSequence s1"
    "point (attempts s1 ! p) \<noteq> Returned True"
    by simp_all
  have "(let a = attempts s ! p; s2 = run is s1 in
            point (attempts s2 ! p) \<noteq> Returned True
            \<and> settle p out e' s2 =
                (case point (attempts s2 ! p) of
                   AtReconnectWorkspace \<Rightarrow>
                     s2\<lparr>attempts := (attempts s2)[p := (attempts s2 ! p)\<lparr>point := Returned False\<rparr>]\<rparr>
                 | AtRefreshThread \<Rightarrow>
                     s2\<lparr>attempts := (attempts s2)[p := (attempts s2 ! p)\<lparr>point := Returned False\<rparr>]\<rparr>
                 | AtUnsubscribeBeforeReattach \<Rightarrow>
                     s2\<lparr>activeSubscriptionKey := None,
                        calls := calls s2 @
                          [(Some p, ThreadLiveSubscribe (at_workspaceId a) (at_threadId a))],
                        attempts := (attempts s2)[p := (attempts s2 ! p)\<lparr>point := AtSubscribe\<rparr>]\<rparr>
                 | AtSubscribe \<Rightarrow>
                     if out = Fulfilled \<and> desiredSubscriptionKey s2 \<noteq> Some (targetKey a)
                     then s2\<lparr>calls := calls s2 @
                                 [(Some p, ThreadLiveUnsubscribe (at_workspaceId a) (at_threadId a))],
                             attempts :=
                               (attempts s2)[p := (attempts s2 ! p)\<lparr>point := AtUnsubscribeStale\<rparr>]\<rparr>
                     else s2\<lparr>attempts :=
                               (attempts s2)[p := (attempts s2 ! p)\<lparr>point := Returned False\<rparr>]\<rparr>
                 | AtUnsubscribeStale \<Rightarrow>
                     s2\<lparr>attempts := (attempts s2)[p := (attempts s2 ! p)\<lparr>point := Returned False\<rparr>]\<rparr>
                 | Returned b \<Rightarrow> s2))"
    for "is" out e'
  proof -
    let ?s2 = "run is s1"
    from stale_run [OF stale, of "is"] have st2: "p < length (attempts ?s2)"
      "at_sequence (attempts ?s2 ! p) \<noteq> reconnectSequence ?s2"
      "point (attempts ?s2 ! p) \<noteq> Returned True"
      by simp_all
    have "sameClosure (attempts s1 ! p) (attempts ?s2 ! p)"
      using attempts_run [of s1 "is"] stale(1) by simp
    then have ids: "targetKey (attempts ?s2 ! p) = targetKey (attempts s ! p)"
      "at_workspaceId (attempts ?s2 ! p) = at_workspaceId (attempts s ! p)"
      "at_threadId (attempts ?s2 ! p) = at_threadId (attempts s ! p)"
      by (simp_all add: sameClosure_def kept)
    show ?thesis
      unfolding Let_def
      using st2(3) stale_settle [OF st2(1,2), of out e']
      by (cases "point (attempts ?s2 ! p)") (simp_all add: ids)
  qed
  with first show ?thesis by blast
qed

theorem other_key_invalidates_witness:
  "invariant refreshing1 \<and> pending refreshing1 0
   \<and> targetKey (attempts refreshing1 ! 0) \<noteq> keyForThread ''ws-1'' ''thread-2''
   \<and> snd (reconnectLive ''ws-1'' ''thread-2'' (Some True) e0 refreshing1) \<noteq> ReturnFalse
   \<and> settle 0 Fulfilled e0 (fst (reconnectLive ''ws-1'' ''thread-2'' (Some True) e0 refreshing1))
       = (fst (reconnectLive ''ws-1'' ''thread-2'' (Some True) e0 refreshing1))
           \<lparr>attempts :=
              (attempts (fst (reconnectLive ''ws-1'' ''thread-2'' (Some True) e0 refreshing1)))
                [0 := (attempts (fst (reconnectLive ''ws-1'' ''thread-2'' (Some True) e0 refreshing1)) ! 0)
                        \<lparr>point := Returned False\<rparr>]\<rparr>"
proof -
  let ?s1 = "fst (reconnectLive ''ws-1'' ''thread-2'' (Some True) e0 refreshing1)"
  have pend: "pending refreshing1 0" by code_simp
  have other: "targetKey (attempts refreshing1 ! 0) \<noteq> keyForThread ''ws-1'' ''thread-2''"
    by code_simp
  have call: "reconnectLive ''ws-1'' ''thread-2'' (Some True) e0 refreshing1
      = (?s1, snd (reconnectLive ''ws-1'' ''thread-2'' (Some True) e0 refreshing1))"
    by simp
  have accepted: "snd (reconnectLive ''ws-1'' ''thread-2'' (Some True) e0 refreshing1) \<noteq> ReturnFalse"
    by code_simp
  have pt: "point (attempts ?s1 ! 0) = AtRefreshThread" by code_simp
  note T = other_key_invalidates [OF invariant_refreshing1 pend other call accepted]
  note T [THEN conjunct2, THEN conjunct2, THEN conjunct2, THEN conjunct2, THEN conjunct2,
      THEN spec [of _ "[]"], THEN spec [of _ Fulfilled], THEN spec [of _ e0]]
  then have "settle 0 Fulfilled e0 ?s1
       = ?s1\<lparr>attempts := (attempts ?s1)[0 := (attempts ?s1 ! 0)\<lparr>point := Returned False\<rparr>]\<rparr>"
    by (simp add: Let_def pt)
  with invariant_refreshing1 pend other accepted show ?thesis by blast
qed

section \<open>When the thread is refreshed\<close>

lemma startAttempt_refresh:
  assumes "startAttempt p w t opts e s = (s', a)" and "point a \<noteq> AtReconnectWorkspace"
  shows "if opts \<noteq> Some False
         then emitted s s' = [RefreshThread w t] \<and> point a = AtRefreshThread
         else filter isRefresh (emitted s s') = [] \<and> point a \<noteq> AtRefreshThread"
  using assms
  by (cases "activeWorkspace s")
     (auto simp: startAttempt_def body_defs Let_def emitted_def split: if_splits)

text \<open>
  C5, as stated, fails: the body tests \<^verbatim>\<open>options?.runResume !== false\<close>, so that the
  thread is refreshed when \<^verbatim>\<open>runResume\<close> is absent. Here \<^verbatim>\<open>reconnectLive\<close> is called
  without options and the attempt calls \<^verbatim>\<open>refreshThread\<close> and awaits it.
\<close>

theorem refresh_counterexample:
  "snd (reconnectLive ''ws-1'' ''thread-1'' None e0 idle1) = ReturnPromise 0 \<and>
   attempts (fst (reconnectLive ''ws-1'' ''thread-1'' None e0 idle1))
     = [\<lparr> targetKey = ''ws-1:thread-1'', at_workspaceId = ''ws-1'', at_threadId = ''thread-1'',
          runResume = None, at_sequence = 1, point = AtRefreshThread, finallyPending = True \<rparr>] \<and>
   calls (fst (reconnectLive ''ws-1'' ''thread-1'' None e0 idle1))
     = [(Some 0, RefreshThread ''ws-1'' ''thread-1'')]"
  by code_simp

text \<open>
  C5, amended: an attempt that passes the session-reconnect step calls \<^verbatim>\<open>refreshThread\<close>
  and awaits it if and only if \<^verbatim>\<open>options.runResume\<close> is not \<^verbatim>\<open>false\<close>, that is, when it
  is \<^verbatim>\<open>true\<close> or absent. This holds when the step is passed without suspending, in the
  call that starts the attempt, and when it is passed after the awaited session
  reconnect is fulfilled with the sequence number unchanged. An attempt started with
  \<^verbatim>\<open>runResume: false\<close> never calls \<^verbatim>\<open>refreshThread\<close>.
\<close>

theorem refresh_unless_runResume_false:
  assumes inv: "invariant s"
  shows "(\<forall>s1 r. reconnectLive w t opts e s = (s1, r)
             \<and> length (attempts s1) = Suc (length (attempts s))
             \<and> point (attempts s1 ! length (attempts s)) \<noteq> AtReconnectWorkspace \<longrightarrow>
           (if opts \<noteq> Some False
            then callsOf (length (attempts s)) s1 = [RefreshThread w t]
                 \<and> point (attempts s1 ! length (attempts s)) = AtRefreshThread
            else filter isRefresh (callsOf (length (attempts s)) s1) = []
                 \<and> point (attempts s1 ! length (attempts s)) \<noteq> AtRefreshThread))
       \<and> (\<forall>p. p < length (attempts s) \<and> point (attempts s ! p) = AtReconnectWorkspace
               \<and> at_sequence (attempts s ! p) = reconnectSequence s \<longrightarrow>
           (let a = attempts s ! p; s1 = settle p Fulfilled e s in
            if runResume a \<noteq> Some False
            then calls s1 = calls s @ [(Some p, RefreshThread (at_workspaceId a) (at_threadId a))]
                 \<and> point (attempts s1 ! p) = AtRefreshThread
            else filter isRefresh (callsOf p s1) = []
                 \<and> point (attempts s1 ! p) \<noteq> AtRefreshThread))
       \<and> (\<forall>p. p < length (attempts s) \<and> runResume (attempts s ! p) = Some False \<longrightarrow>
           filter isRefresh (callsOf p s) = [])"
proof (intro conjI allI impI)
  fix s1 r
  assume h: "reconnectLive w t opts e s = (s1, r)
             \<and> length (attempts s1) = Suc (length (attempts s))
             \<and> point (attempts s1 ! length (attempts s)) \<noteq> AtReconnectWorkspace"
  let ?p = "length (attempts s)"
  from h started_shape(1) [of w t opts e s s1 r] obtain s2 s3 a where
    st: "startAttempt ?p w t opts e s2 = (s3, a)"
    and cl2: "calls s2 = calls s"
    and s1: "s1 = s3\<lparr>inFlightReconnect :=
                       Some \<lparr> key = keyForThread w t, sequence = Suc (reconnectSequence s),
                              promise = ?p \<rparr>,
                     attempts := attempts s @ [a],
                     callerPromises := callerPromises s @ [ReturnPromise ?p]\<rparr>"
    by auto
  have a: "attempts s1 ! ?p = a" by (simp add: s1)
  have "calls s1 = calls s @ map (Pair (Some ?p)) (emitted s2 s3)"
    using startAttempt_calls(1) [OF st] cl2 by (simp add: s1)
  from callsOf_emitted [OF this, of ?p] callsOf_fresh [OF inv]
  have co: "callsOf ?p s1 = emitted s2 s3" by simp
  from h a have "point a \<noteq> AtReconnectWorkspace" by simp
  from startAttempt_refresh [OF st this]
  show "if opts \<noteq> Some False
        then callsOf ?p s1 = [RefreshThread w t] \<and> point (attempts s1 ! ?p) = AtRefreshThread
        else filter isRefresh (callsOf ?p s1) = [] \<and> point (attempts s1 ! ?p) \<noteq> AtRefreshThread"
    by (simp add: co a)
next
  fix p
  assume h: "p < length (attempts s) \<and> point (attempts s ! p) = AtReconnectWorkspace
               \<and> at_sequence (attempts s ! p) = reconnectSequence s"
  with inv have "callsAgree (attempts s ! p) (callsOf p s)"
    by (simp add: invariant_def)
  with h have none: "filter isRefresh (callsOf p s) = []"
    by (simp add: callsAgree_def)
  from h have pend: "pending s p" by (simp add: pending_def)
  show "let a = attempts s ! p; s1 = settle p Fulfilled e s in
            if runResume a \<noteq> Some False
            then calls s1 = calls s @ [(Some p, RefreshThread (at_workspaceId a) (at_threadId a))]
                 \<and> point (attempts s1 ! p) = AtRefreshThread
            else filter isRefresh (callsOf p s1) = []
                 \<and> point (attempts s1 ! p) \<noteq> AtRefreshThread"
  proof (cases "runResume (attempts s ! p) \<noteq> Some False")
    case True
    with h pend show ?thesis
      by (simp add: settle_def resume_def body_defs Let_def)
  next
    case False
    obtain s' pt where r: "resume p (attempts s ! p) Fulfilled e s = (s', pt)"
      by (cases "resume p (attempts s ! p) Fulfilled e s")
    let ?s1 = "s'\<lparr>attempts := (attempts s)[p := (attempts s ! p)\<lparr>point := pt\<rparr>]\<rparr>"
    have s1: "settle p Fulfilled e s = ?s1"
      using settle_pending [OF pend r] .
    have "calls ?s1 = calls s @ map (Pair (Some p)) (emitted s s')"
      using resume_calls(1) [OF r] by simp
    from callsOf_emitted [OF this, of p]
    have co: "callsOf p ?s1 = callsOf p s @ emitted s s'" by simp
    from r h False have "filter isRefresh (emitted s s') = [] \<and> pt \<noteq> AtRefreshThread"
      by (auto simp: resume_def body_defs emitted_def split: if_splits)
    with h False show ?thesis
      by (simp add: s1 co none Let_def)
  qed
next
  fix p
  assume h: "p < length (attempts s) \<and> runResume (attempts s ! p) = Some False"
  with inv have "callsAgree (attempts s ! p) (callsOf p s)"
    by (simp add: invariant_def)
  with h show "filter isRefresh (callsOf p s) = []"
    by (cases "point (attempts s ! p)")
       (auto simp: callsAgree_def expectedRefresh_def Let_def split: if_splits)
qed

theorem refresh_unless_runResume_false_witness:
  "invariant idle1
   \<and> callsOf 0 (fst (reconnectLive ''ws-1'' ''thread-1'' None e0 idle1))
       = [RefreshThread ''ws-1'' ''thread-1'']
   \<and> filter isRefresh (callsOf 0 (fst (reconnectLive ''ws-1'' ''thread-1'' (Some False) e0 idle1)))
       = []
   \<and> calls (settle 0 Fulfilled e0 reconnecting1)
       = calls reconnecting1 @ [(Some 0, RefreshThread ''ws-1'' ''thread-1'')]
   \<and> filter isRefresh (callsOf 0 subscribing1) = []"
proof -
  let ?a = "reconnectLive ''ws-1'' ''thread-1'' None e0 idle1"
  let ?b = "reconnectLive ''ws-1'' ''thread-1'' (Some False) e0 idle1"
  have inv: "invariant idle1"
    unfolding idle1_def by (rule invariant_initial)
  have len0: "length (attempts idle1) = 0" by code_simp
  have a: "?a = (fst ?a, snd ?a)
      \<and> length (attempts (fst ?a)) = Suc (length (attempts idle1))
      \<and> point (attempts (fst ?a) ! length (attempts idle1)) \<noteq> AtReconnectWorkspace"
    by (intro conjI, simp) code_simp+
  have b: "?b = (fst ?b, snd ?b)
      \<and> length (attempts (fst ?b)) = Suc (length (attempts idle1))
      \<and> point (attempts (fst ?b) ! length (attempts idle1)) \<noteq> AtReconnectWorkspace"
    by (intro conjI, simp) code_simp+
  note A = refresh_unless_runResume_false [OF inv, of "''ws-1''" "''thread-1''" None e0,
      THEN conjunct1, THEN spec [of _ "fst ?a"], THEN spec [of _ "snd ?a"], THEN mp, OF a]
  note B = refresh_unless_runResume_false [OF inv, of "''ws-1''" "''thread-1''" "Some False" e0,
      THEN conjunct1, THEN spec [of _ "fst ?b"], THEN spec [of _ "snd ?b"], THEN mp, OF b]
  have 1: "callsOf 0 (fst ?a) = [RefreshThread ''ws-1'' ''thread-1'']"
    using A by (simp add: len0)
  have 2: "filter isRefresh (callsOf 0 (fst ?b)) = []"
    using B by (simp add: len0)
  have c: "0 < length (attempts reconnecting1)
      \<and> point (attempts reconnecting1 ! 0) = AtReconnectWorkspace
      \<and> at_sequence (attempts reconnecting1 ! 0) = reconnectSequence reconnecting1"
    by (intro conjI) code_simp+
  have c': "runResume (attempts reconnecting1 ! 0) = None"
    "at_workspaceId (attempts reconnecting1 ! 0) = ''ws-1''"
    "at_threadId (attempts reconnecting1 ! 0) = ''thread-1''"
    by code_simp+
  note C = refresh_unless_runResume_false [OF invariant_reconnecting1, of "[]" "[]" None e0,
      THEN conjunct2, THEN conjunct1, THEN spec [of _ 0], THEN mp, OF c]
  have 3: "calls (settle 0 Fulfilled e0 reconnecting1)
       = calls reconnecting1 @ [(Some 0, RefreshThread ''ws-1'' ''thread-1'')]"
    using C by (simp add: Let_def c')
  have d: "0 < length (attempts subscribing1)
      \<and> runResume (attempts subscribing1 ! 0) = Some False"
    by (intro conjI) code_simp+
  note 4 = refresh_unless_runResume_false [OF invariant_subscribing1, of "[]" "[]" None e0,
      THEN conjunct2, THEN conjunct2, THEN spec [of _ 0], THEN mp, OF d]
  from inv 1 2 3 4 show ?thesis by blast
qed

end
